theory Spec2Isabelle
  imports Complex_Main
begin

section \<open>Strings of the source language\<close>

text \<open>
  The source is TypeScript. A source string is modelled as a HOL \<open>string\<close>, one
  \<open>char\<close> per code unit, so the model covers the code units below 256 (the
  timestamps, separators and line breaks the code inspects are all ASCII). Numbers of
  the source are IEEE doubles; the model computes with exact integers and rationals,
  which agree with the doubles on every value whose integer parts stay below \<open>2^53\<close>
  up to the rounding of the last division by 1000.
\<close>

definition is_ws :: "char \<Rightarrow> bool" where
  \<comment> \<open>white space and line terminators of the language, in the range below 256\<close>
  "is_ws c \<longleftrightarrow> c \<in> {CHR 0x09, CHR 0x0A, CHR 0x0B, CHR 0x0C, CHR 0x0D, CHR 0x20, CHR 0xA0}"

definition trimStart :: "string \<Rightarrow> string" where
  "trimStart s = dropWhile is_ws s"

definition trimEnd :: "string \<Rightarrow> string" where
  "trimEnd s = rev (dropWhile is_ws (rev s))"

definition trim :: "string \<Rightarrow> string" where
  "trim s = trimEnd (trimStart s)"

definition padStart :: "nat \<Rightarrow> char \<Rightarrow> string \<Rightarrow> string" where
  \<comment> \<open>\<open>s.padStart(n, c)\<close> for a one-character pad string\<close>
  "padStart n c s = replicate (n - length s) c @ s"

definition padEnd :: "nat \<Rightarrow> char \<Rightarrow> string \<Rightarrow> string" where
  "padEnd n c s = s @ replicate (n - length s) c"

fun join :: "string \<Rightarrow> string list \<Rightarrow> string" where
  "join sep [] = []"
| "join sep [x] = x"
| "join sep (x # y # ys) = x @ sep @ join sep (y # ys)"

definition starts_with :: "string \<Rightarrow> string \<Rightarrow> bool" where
  "starts_with p s \<longleftrightarrow> take (length p) s = p"

fun str_includes :: "string \<Rightarrow> string \<Rightarrow> bool" where
  \<comment> \<open>\<open>s.includes(p)\<close>\<close>
  "str_includes p [] = (p = [])"
| "str_includes p (c # cs) = (starts_with p (c # cs) \<or> str_includes p cs)"

subsection \<open>Splitting\<close>

text \<open>
  \<open>s.split(sep)\<close> walks the string from the left; where the separator matches, the
  text collected so far becomes a piece and the walk resumes after the match. The
  separator is given as a matcher: the length of its match at the start of the rest of
  the string, if any. Every separator used here matches at least one character.
\<close>

fun split_with :: "(string \<Rightarrow> nat option) \<Rightarrow> string \<Rightarrow> string \<Rightarrow> string list" where
  "split_with m acc [] = [rev acc]"
| "split_with m acc (c # cs) =
     (case m (c # cs) of
        Some (Suc k) \<Rightarrow> rev acc # split_with m [] (drop k cs)
      | _ \<Rightarrow> split_with m (c # acc) cs)"

definition js_split :: "(string \<Rightarrow> nat option) \<Rightarrow> string \<Rightarrow> string list" where
  "js_split m s = split_with m [] s"

definition is_time_sep :: "char \<Rightarrow> bool" where
  \<comment> \<open>the character class \<open>[:,\.]\<close>\<close>
  "is_time_sep c \<longleftrightarrow> c = CHR '':'' \<or> c = CHR '','' \<or> c = CHR ''.''"

definition match_time_sep :: "string \<Rightarrow> nat option" where
  "match_time_sep s = (case s of c # _ \<Rightarrow> if is_time_sep c then Some 1 else None | [] \<Rightarrow> None)"

definition match_literal :: "string \<Rightarrow> string \<Rightarrow> nat option" where
  "match_literal p s = (if starts_with p s then Some (length p) else None)"

subsection \<open>parseInt\<close>

definition is_digit :: "char \<Rightarrow> bool" where
  "is_digit c \<longleftrightarrow> 48 \<le> (of_char c :: nat) \<and> (of_char c :: nat) \<le> 57"

definition digit_value :: "char \<Rightarrow> nat" where
  "digit_value c = of_char c - 48"

definition is_hex_digit :: "char \<Rightarrow> bool" where
  "is_hex_digit c \<longleftrightarrow> is_digit c
     \<or> (97 \<le> (of_char c :: nat) \<and> (of_char c :: nat) \<le> 102)
     \<or> (65 \<le> (of_char c :: nat) \<and> (of_char c :: nat) \<le> 70)"

definition hex_value :: "char \<Rightarrow> nat" where
  "hex_value c = (let n = of_char c :: nat in
     if 97 \<le> n then n - 87 else if 65 \<le> n then n - 55 else n - 48)"

definition strip_sign :: "string \<Rightarrow> string" where
  "strip_sign s = (if starts_with ''-'' s \<or> starts_with ''+'' s then drop 1 s else s)"

definition signed :: "string \<Rightarrow> nat \<Rightarrow> int" where
  "signed s n = (if starts_with ''-'' s then - int n else int n)"

definition parseInt10 :: "string \<Rightarrow> int option" where
  \<comment> \<open>\<open>parseInt(s, 10)\<close>; \<open>None\<close> is NaN\<close>
  "parseInt10 str =
     (let S = trimStart str;
          Z = takeWhile is_digit (strip_sign S)
      in if Z = [] then None
         else Some (signed S (foldl (\<lambda>a c. a * 10 + digit_value c) 0 Z)))"

definition parseInt :: "string \<Rightarrow> int option" where
  \<comment> \<open>\<open>parseInt(s)\<close> with no radix: a \<open>0x\<close> prefix selects base 16\<close>
  "parseInt str =
     (let S = trimStart str;
          S1 = strip_sign S
      in if starts_with ''0x'' S1 \<or> starts_with ''0X'' S1
         then (let Z = takeWhile is_hex_digit (drop 2 S1)
               in if Z = [] then None
                  else Some (signed S (foldl (\<lambda>a c. a * 16 + hex_value c) 0 Z)))
         else (let Z = takeWhile is_digit S1
               in if Z = [] then None
                  else Some (signed S (foldl (\<lambda>a c. a * 10 + digit_value c) 0 Z))))"

definition or0 :: "int option \<Rightarrow> int" where
  \<comment> \<open>\<open>x || 0\<close> on a number: NaN and 0 give 0\<close>
  "or0 x = (case x of None \<Rightarrow> 0 | Some n \<Rightarrow> n)"

definition gt59 :: "int option \<Rightarrow> bool" where
  \<comment> \<open>\<open>x > 59\<close>; false on NaN\<close>
  "gt59 x = (case x of None \<Rightarrow> False | Some n \<Rightarrow> n > 59)"

section \<open>Timestamp parser\<close>

definition seconds_of :: "int \<Rightarrow> int \<Rightarrow> int \<Rightarrow> int \<Rightarrow> rat" where
  "seconds_of hours minutes seconds ms =
     of_int hours * 3600 + of_int minutes * 60 + of_int seconds + of_int ms / 1000"

definition timeToSeconds :: "string \<Rightarrow> rat option" where
  "timeToSeconds time0 =
     (let time = trim time0;
          parts = js_split match_time_sep time
      in if length parts = 4 then
           Some (seconds_of (or0 (parseInt10 (parts ! 0))) (or0 (parseInt10 (parts ! 1)))
                            (or0 (parseInt10 (parts ! 2))) (or0 (parseInt10 (parts ! 3))))
         else if length parts = 3 then
           (let p1 = or0 (parseInt10 (parts ! 0));
                p2 = or0 (parseInt10 (parts ! 1));
                p3 = or0 (parseInt10 (parts ! 2))
            in if p3 > 59 \<or> length (parts ! 2) = 3
               then Some (seconds_of 0 p1 p2 p3)
               else Some (seconds_of p1 p2 p3 0))
         else if length parts = 2 then
           Some (seconds_of 0 (or0 (parseInt10 (parts ! 0))) (or0 (parseInt10 (parts ! 1))) 0)
         else None)"

definition fixSingleTime :: "string \<Rightarrow> string" where
  "fixSingleTime time0 =
     (let time = trim time0;
          parts = js_split match_time_sep time
      in if length parts = 4 then
           padStart 2 CHR ''0'' (parts ! 0) @ '':'' @ padStart 2 CHR ''0'' (parts ! 1) @ '':''
             @ padStart 2 CHR ''0'' (parts ! 2) @ '','' @ take 3 (padEnd 3 CHR ''0'' (parts ! 3))
         else if length parts = 3 then
           (if gt59 (parseInt (parts ! 2)) \<or> length (parts ! 2) = 3
            then ''00:'' @ padStart 2 CHR ''0'' (parts ! 0) @ '':''
                   @ padStart 2 CHR ''0'' (parts ! 1) @ '','' @ take 3 (padEnd 3 CHR ''0'' (parts ! 2))
            else padStart 2 CHR ''0'' (parts ! 0) @ '':'' @ padStart 2 CHR ''0'' (parts ! 1) @ '':''
                   @ padStart 2 CHR ''0'' (parts ! 2) @ '',000'')
         else if length parts = 2 then
           ''00:'' @ padStart 2 CHR ''0'' (parts ! 0) @ '':''
             @ padStart 2 CHR ''0'' (parts ! 1) @ '',000''
         else time)"

section \<open>Subtitle track parser\<close>

record cue =
  ctext :: string
  startSec :: rat
  endSec :: rat

definition skip_opt :: "char \<Rightarrow> string \<Rightarrow> string" where
  \<comment> \<open>an optional character, taken when present\<close>
  "skip_opt c s = (case s of x # xs \<Rightarrow> if x = c then xs else s | [] \<Rightarrow> s)"

definition match_newline :: "string \<Rightarrow> nat option" where
  \<comment> \<open>the pattern \<open>\r?\n\<close>\<close>
  "match_newline s =
     (case skip_opt CHR 0x0D s of
        c # _ \<Rightarrow> if c = CHR 0x0A then Some (length s - length (skip_opt CHR 0x0D s) + 1) else None
      | [] \<Rightarrow> None)"

definition match_blank :: "string \<Rightarrow> nat option" where
  \<comment> \<open>the pattern \<open>\r?\n\r?\n+\<close>; after an optional character that the next, required
     one excludes, and with the greedy repetition last, the match is the only candidate\<close>
  "match_blank s =
     (case skip_opt CHR 0x0D s of
        c # s2 \<Rightarrow>
          if c = CHR 0x0A
          then (let s3 = skip_opt CHR 0x0D s2;
                    n = length (takeWhile (\<lambda>x. x = CHR 0x0A) s3)
                in if n = 0 then None else Some (length s - length s3 + n))
          else None
      | [] \<Rightarrow> None)"

fun findTiming :: "string list \<Rightarrow> nat \<Rightarrow> string \<times> nat" where
  \<comment> \<open>the search for the timing line from index \<open>i\<close>: the line and \<open>textStartIndex\<close>,
     left at the empty string and 0 when no line has the arrow\<close>
  "findTiming [] i = ([], 0)"
| "findTiming (l # ls) i =
     (if str_includes ''-->'' l then (l, i + 1) else findTiming ls (i + 1))"

definition parseBlock :: "string \<Rightarrow> cue option" where
  \<comment> \<open>the body of the loop over blocks; \<open>None\<close> is \<open>continue\<close> (or no push)\<close>
  "parseBlock block =
     (let lines = js_split match_newline block
      in if length lines < 2 then None
         else (let (timingLine, textStartIndex) = findTiming lines 0
               in if timingLine = [] then None
                  else (let parts = map trim (js_split (match_literal ''-->'') timingLine)
                        in if length parts \<noteq> 2 then None
                           else (case (timeToSeconds (parts ! 0), timeToSeconds (parts ! 1)) of
                                   (Some s, Some e) \<Rightarrow>
                                     (let textLines = filter (\<lambda>l. trim l \<noteq> []) (drop textStartIndex lines);
                                          txt = join '' '' textLines
                                      in if txt \<noteq> []
                                         then Some \<lparr>ctext = txt, startSec = s, endSec = e\<rparr>
                                         else None)
                                 | _ \<Rightarrow> None))))"

fun parseBlocks :: "string list \<Rightarrow> cue list" where
  "parseBlocks [] = []"
| "parseBlocks (block # blocks) =
     (case parseBlock block of
        None \<Rightarrow> parseBlocks blocks
      | Some c \<Rightarrow> c # parseBlocks blocks)"

definition parseSrtToSubtitles :: "string \<Rightarrow> cue list" where
  "parseSrtToSubtitles srtContent = parseBlocks (js_split match_blank (trim srtContent))"

section \<open>Caption of a frame\<close>

definition activeAt :: "rat \<Rightarrow> cue \<Rightarrow> bool" where
  "activeAt currentTime sub \<longleftrightarrow> currentTime \<ge> startSec sub \<and> currentTime < endSec sub"

definition captionAt :: "cue list \<Rightarrow> rat \<Rightarrow> string" where
  \<comment> \<open>\<open>subtitles.find(...)?.text || ''\<close>\<close>
  "captionAt subtitles currentTime =
     (case List.find (activeAt currentTime) subtitles of
        None \<Rightarrow> []
      | Some sub \<Rightarrow> if ctext sub \<noteq> [] then ctext sub else [])"

section \<open>Caption wrapping\<close>

text \<open>
  \<open>wrapText\<close> measures a candidate line with the drawing context; the model takes the
  measure as the function \<open>width\<close>.
\<close>

fun wrapLoop :: "(string \<Rightarrow> rat) \<Rightarrow> rat \<Rightarrow> string \<Rightarrow> string list \<Rightarrow> string \<Rightarrow> string list" where
  "wrapLoop width maxWidth [] lines currentLine =
     (if currentLine \<noteq> [] then lines @ [currentLine] else lines)"
| "wrapLoop width maxWidth (char # words) lines currentLine =
     (let testLine = currentLine @ [char]
      in if width testLine > maxWidth \<and> currentLine \<noteq> []
         then wrapLoop width maxWidth words (lines @ [currentLine]) [char]
         else wrapLoop width maxWidth words lines testLine)"

definition wrapText :: "(string \<Rightarrow> rat) \<Rightarrow> string \<Rightarrow> rat \<Rightarrow> string list" where
  "wrapText width txt maxWidth = wrapLoop width maxWidth txt [] []"

section \<open>Video assembler\<close>

text \<open>
  The encoder keeps its working storage as named files. The calls that leave the program
  (the duration probe, the image decoder, the compositor's drawing and the encoder's file
  operations) are taken from an environment that fixes, for one run, what each of them
  returns and which of them throw. Progress reports and log lines have no effect on the
  storage or on the result and are left out.

  The compositor \<open>renderFrame\<close> draws in the page: every call creates a canvas there.
  The page is a number that stands for its state; \<open>renderFrame\<close> takes the caption and
  the page and gives the bytes of the frame and the page after the call, so that a frame
  can only be composed by a call that changes the page, and the page the loop leaves
  tells which calls were made. \<open>page\<close> is the page when the run starts. The image, the
  size and the caption position are the same for every call of a run and are part of
  the function the environment gives.
\<close>

type_synonym bytes = "nat list"

type_synonym storage = "string \<rightharpoonup> bytes"

datatype error =
    NotLoaded
  | ImageDecodeError
  | WriteFailed string
  | ExecFailed
  | ReadFailed string
  | DeleteFailed string

record env =
  loaded :: bool
  audioFileName :: string
  audioData :: bytes
  durationProbe :: "rat option"
  imageDecodes :: bool
  page :: nat
  renderFrame :: "string \<Rightarrow> nat \<Rightarrow> bytes \<times> nat"
  writeFails :: "string \<Rightarrow> bool"
  execFails :: bool
  encodedVideo :: bytes
  deleteFails :: "string \<Rightarrow> bool"

fun toString :: "nat \<Rightarrow> string" where
  "toString n =
     (if n < 10 then [char_of (48 + n)]
      else toString (n div 10) @ [char_of (48 + n mod 10)])"

declare toString.simps [simp del]

definition frameName :: "nat \<Rightarrow> string" where
  "frameName i = ''frame'' @ padStart 5 CHR ''0'' (toString i) @ ''.jpg''"

definition audioExt :: "string \<Rightarrow> string" where
  \<comment> \<open>\<open>name.split('.').pop() || 'mp3'\<close>\<close>
  "audioExt name =
     (let p = last (js_split (match_literal ''.'') name) in if p \<noteq> [] then p else ''mp3'')"

definition getAudioDuration :: "rat option \<Rightarrow> rat" where
  \<comment> \<open>the probed duration, \<open>None\<close> when the probe fails or gives no number\<close>
  "getAudioDuration probe = (case probe of None \<Rightarrow> 180 | Some d \<Rightarrow> if d \<noteq> 0 then d else 180)"

definition writeFile :: "env \<Rightarrow> string \<Rightarrow> bytes \<Rightarrow> storage \<Rightarrow> error + storage" where
  "writeFile E name data fs =
     (if writeFails E name then Inl (WriteFailed name) else Inr (fs(name \<mapsto> data)))"

definition deleteFile :: "env \<Rightarrow> string \<Rightarrow> storage \<Rightarrow> error + storage" where
  "deleteFile E name fs =
     (if deleteFails E name then Inl (DeleteFailed name) else Inr (fs(name := None)))"

definition exec :: "env \<Rightarrow> string \<Rightarrow> storage \<Rightarrow> error + storage" where
  "exec E outputName fs =
     (if execFails E then Inl ExecFailed else Inr (fs(outputName \<mapsto> encodedVideo E)))"

definition readFile :: "string \<Rightarrow> storage \<Rightarrow> error + bytes" where
  "readFile name fs = (case fs name of None \<Rightarrow> Inl (ReadFailed name) | Some d \<Rightarrow> Inr d)"

record frame_state =
  lastSubtitle :: string
  cachedFrameData :: "bytes option"
  files :: storage
  document :: nat

definition frameStep :: "env \<Rightarrow> cue list \<Rightarrow> nat \<Rightarrow> frame_state \<Rightarrow> error + frame_state" where
  "frameStep E subtitles i st =
     (let currentTime = of_nat i / 4;
          subtitleText = captionAt subtitles currentTime;
          st1 = (if subtitleText \<noteq> lastSubtitle st \<or> cachedFrameData st = None
                 then (let (frameData, doc) = renderFrame E subtitleText (document st)
                       in st\<lparr>cachedFrameData := Some frameData,
                               lastSubtitle := subtitleText,
                               document := doc\<rparr>)
                 else st);
          data = (case cachedFrameData st1 of None \<Rightarrow> [] | Some d \<Rightarrow> d)
      in case writeFile E (frameName i) data (files st1) of
           Inl e \<Rightarrow> Inl e
         | Inr fs \<Rightarrow> Inr (st1\<lparr>files := fs\<rparr>))"

fun frameLoop :: "env \<Rightarrow> cue list \<Rightarrow> nat list \<Rightarrow> frame_state \<Rightarrow> (error \<times> storage) + frame_state" where
  \<comment> \<open>a throw leaves the loop with the storage as the frames written so far made it\<close>
  "frameLoop E subtitles [] st = Inr st"
| "frameLoop E subtitles (i # is) st =
     (case frameStep E subtitles i st of
        Inl e \<Rightarrow> Inl (e, files st)
      | Inr st' \<Rightarrow> frameLoop E subtitles is st')"

fun deleteFiles :: "env \<Rightarrow> string list \<Rightarrow> storage \<Rightarrow> storage" where
  \<comment> \<open>the deletions inside one \<open>try\<close>, whose \<open>catch\<close> is empty: the first one that throws
     ends them\<close>
  "deleteFiles E [] fs = fs"
| "deleteFiles E (name # names) fs =
     (case deleteFile E name fs of
        Inl e \<Rightarrow> fs
      | Inr fs' \<Rightarrow> deleteFiles E names fs')"

definition totalFramesOf :: "env \<Rightarrow> nat" where
  \<comment> \<open>\<open>Math.ceil(audioDuration * fps)\<close> with \<open>fps = 4\<close>\<close>
  "totalFramesOf E = nat \<lceil>getAudioDuration (durationProbe E) * 4\<rceil>"

definition createVideo :: "env \<Rightarrow> string \<Rightarrow> storage \<Rightarrow> (error + bytes) \<times> storage" where
  \<comment> \<open>the result, a throw being \<open>Inl\<close>, and the working storage the run leaves\<close>
  "createVideo E srtContent fs0 =
     (if \<not> loaded E then (Inl NotLoaded, fs0)
      else
        (let audioName = ''audio.'' @ audioExt (audioFileName E);
             outputName = ''output.mp4'';
             subtitles = parseSrtToSubtitles srtContent;
             totalFrames = totalFramesOf E
         in if \<not> imageDecodes E then (Inl ImageDecodeError, fs0)
            else
              (case frameLoop E subtitles [0..<totalFrames]
                      \<lparr>lastSubtitle = [], cachedFrameData = None, files = fs0,
                        document = page E\<rparr> of
                 Inl (e, fs) \<Rightarrow> (Inl e, fs)
               | Inr st \<Rightarrow>
                   (case writeFile E audioName (audioData E) (files st) of
                      Inl e \<Rightarrow> (Inl e, files st)
                    | Inr fs1 \<Rightarrow>
                        (case exec E outputName fs1 of
                           Inl e \<Rightarrow> (Inl e, fs1)
                         | Inr fs2 \<Rightarrow>
                             (case readFile outputName fs2 of
                                Inl e \<Rightarrow> (Inl e, fs2)
                              | Inr data \<Rightarrow>
                                  (Inr data,
                                   deleteFiles E
                                     (map frameName [0..<totalFrames] @ [audioName, outputName])
                                     fs2)))))))"

section \<open>Styled-event export\<close>

text \<open>
  The export recognises a timing line with two regular expressions. They are built from
  character classes, bounded greedy repetitions of a class, concatenation and capture
  groups; \<open>rx_match\<close> lists the ways such an expression matches at the start of a string
  in the order a backtracking matcher tries them, so the head of the list is the match
  the language reports.
\<close>

datatype rx =
    Cls "char \<Rightarrow> bool"
  | Rep nat "nat option" "char \<Rightarrow> bool"
  | Cat rx rx
  | Grp rx

fun rx_match :: "rx \<Rightarrow> string \<Rightarrow> (string \<times> string list \<times> string) list" where
  \<comment> \<open>the matched text, the captures it holds and the rest of the string\<close>
  "rx_match (Cls P) s = (case s of c # cs \<Rightarrow> if P c then [([c], [], cs)] else [] | [] \<Rightarrow> [])"
| "rx_match (Rep lo hi P) s =
     (let avail = length (takeWhile P s);
          n = (case hi of None \<Rightarrow> avail | Some h \<Rightarrow> min h avail)
      in map (\<lambda>k. (take k s, [], drop k s)) (rev [lo..<Suc n]))"
| "rx_match (Cat a b) s =
     concat (map (\<lambda>(m1, g1, r1). map (\<lambda>(m2, g2, r2). (m1 @ m2, g1 @ g2, r2)) (rx_match b r1))
                 (rx_match a s))"
| "rx_match (Grp a) s = map (\<lambda>(m, g, r). (m, m # g, r)) (rx_match a s)"

fun rx_search :: "rx \<Rightarrow> string \<Rightarrow> string list option" where
  \<comment> \<open>\<open>s.match(r)\<close> without the global flag: the captures of the leftmost match\<close>
  "rx_search r [] = (case rx_match r [] of [] \<Rightarrow> None | (m, g, rest) # _ \<Rightarrow> Some g)"
| "rx_search r (c # cs) =
     (case rx_match r (c # cs) of [] \<Rightarrow> rx_search r cs | (m, g, rest) # _ \<Rightarrow> Some g)"

fun rx_seq :: "rx list \<Rightarrow> rx" where
  "rx_seq [] = Rep 0 (Some 0) (\<lambda>c. False)"
| "rx_seq [r] = r"
| "rx_seq (r # rs) = Cat r (rx_seq rs)"

definition rx_lit :: "char \<Rightarrow> rx" where
  "rx_lit c = Cls (\<lambda>x. x = c)"

definition rx_arrow :: "rx list" where
  \<comment> \<open>\<open>\s*-->\s*\<close>\<close>
  "rx_arrow = [Rep 0 None is_ws, rx_lit CHR ''-'', rx_lit CHR ''-'', rx_lit CHR ''>'', Rep 0 None is_ws]"

definition rx_standard_time :: "rx list" where
  \<comment> \<open>\<open>(\d{1,2}:\d{2}:\d{2})[,.](\d{3})\<close>\<close>
  "rx_standard_time =
     [Grp (rx_seq [Rep 1 (Some 2) is_digit, rx_lit CHR '':'', Rep 2 (Some 2) is_digit,
                   rx_lit CHR '':'', Rep 2 (Some 2) is_digit]),
      Cls (\<lambda>c. c = CHR '','' \<or> c = CHR ''.''),
      Grp (Rep 3 (Some 3) is_digit)]"

definition rx_standard :: rx where
  "rx_standard = rx_seq (rx_standard_time @ rx_arrow @ rx_standard_time)"

definition rx_nonstandard_time :: "rx list" where
  \<comment> \<open>\<open>(\d{1,2}):(\d{2})[,:](\d{3})\<close>\<close>
  "rx_nonstandard_time =
     [Grp (Rep 1 (Some 2) is_digit), rx_lit CHR '':'', Grp (Rep 2 (Some 2) is_digit),
      Cls (\<lambda>c. c = CHR '','' \<or> c = CHR '':''),
      Grp (Rep 3 (Some 3) is_digit)]"

definition rx_nonstandard :: rx where
  "rx_nonstandard = rx_seq (rx_nonstandard_time @ rx_arrow @ rx_nonstandard_time)"

definition numToString :: "int option \<Rightarrow> string" where
  \<comment> \<open>a number inside a template literal\<close>
  "numToString x =
     (case x of
        None \<Rightarrow> ''NaN''
      | Some n \<Rightarrow> if n < 0 then ''-'' @ toString (nat (- n)) else toString (nat n))"

definition part_at :: "string list \<Rightarrow> nat \<Rightarrow> string" where
  \<comment> \<open>an array element inside a template literal\<close>
  "part_at parts i = (if i < length parts then parts ! i else ''undefined'')"

definition convertToAssTime :: "string \<Rightarrow> string \<Rightarrow> string" where
  "convertToAssTime hhmmss ms =
     (let parts = js_split (match_literal '':'') hhmmss;
          h = parseInt10 (part_at parts 0);
          mm = part_at parts 1;
          ss = part_at parts 2;
          cc = take 2 ms
      in numToString h @ '':'' @ mm @ '':'' @ ss @ ''.'' @ cc)"

definition assTiming :: "string \<Rightarrow> (string \<times> string) option" where
  \<comment> \<open>\<open>startTime\<close> and \<open>endTime\<close> of a timing line; \<open>None\<close> is \<open>continue\<close>\<close>
  "assTiming timingLine =
     (case rx_search rx_standard timingLine of
        Some g \<Rightarrow> Some (convertToAssTime (part_at g 0) (part_at g 1),
                        convertToAssTime (part_at g 2) (part_at g 3))
      | None \<Rightarrow>
          (case rx_search rx_nonstandard timingLine of
             Some g \<Rightarrow>
               Some (''0:'' @ padStart 2 CHR ''0'' (part_at g 0) @ '':'' @ part_at g 1
                       @ ''.'' @ take 2 (part_at g 2),
                     ''0:'' @ padStart 2 CHR ''0'' (part_at g 3) @ '':'' @ part_at g 4
                       @ ''.'' @ take 2 (part_at g 5))
           | None \<Rightarrow> None))"

definition assBlock :: "string \<Rightarrow> string option" where
  \<comment> \<open>the body of the loop over blocks; \<open>None\<close> is \<open>continue\<close> (or no push)\<close>
  "assBlock block =
     (let lines = js_split match_newline block
      in if length lines < 2 then None
         else (let (timingLine, textStartIndex) = findTiming lines 0
               in if timingLine = [] then None
                  else (case assTiming timingLine of
                          None \<Rightarrow> None
                        | Some (startTime, endTime) \<Rightarrow>
                            (let textLines = filter (\<lambda>l. trim l \<noteq> []) (drop textStartIndex lines);
                                 txt = join [CHR 0x5C, CHR ''N''] textLines
                             in if txt \<noteq> []
                                then Some (''Dialogue: 0,'' @ startTime @ '','' @ endTime
                                             @ '',Default,,0,0,0,,'' @ txt)
                                else None))))"

fun assBlocks :: "string list \<Rightarrow> string list" where
  "assBlocks [] = []"
| "assBlocks (block # blocks) =
     (case assBlock block of
        None \<Rightarrow> assBlocks blocks
      | Some ev \<Rightarrow> ev # assBlocks blocks)"

definition assEvents :: "string \<Rightarrow> string list" where
  \<comment> \<open>the array \<open>events\<close> when the loop of \<open>srtToAss\<close> ends\<close>
  "assEvents srtContent = assBlocks (js_split match_blank (trim srtContent))"

definition assHeader :: string where
  "assHeader = concat (map (\<lambda>l. l @ [CHR 0x0A])
     [''[Script Info]'',
      ''Title: Lyrics'',
      ''ScriptType: v4.00+'',
      ''WrapStyle: 0'',
      ''ScaledBorderAndShadow: yes'',
      ''YCbCr Matrix: None'',
      ''PlayResX: 1920'',
      ''PlayResY: 1080'',
      '''',
      ''[V4+ Styles]'',
      ''Format: Name, Fontname, Fontsize, PrimaryColour, SecondaryColour, OutlineColour, BackColour, Bold, Italic, Underline, StrikeOut, ScaleX, ScaleY, Spacing, Angle, BorderStyle, Outline, Shadow, Alignment, MarginL, MarginR, MarginV, Encoding'',
      ''Style: Default,Arial,72,&H00FFFFFF,&H000000FF,&H00000000,&H80000000,-1,0,0,0,100,100,0,0,1,4,2,2,20,20,60,1'',
      '''',
      ''[Events]'',
      ''Format: Layer, Start, End, Style, Name, MarginL, MarginR, MarginV, Effect, Text''])"

definition srtToAss :: "string \<Rightarrow> string" where
  "srtToAss srtContent = assHeader @ join [CHR 0x0A] (assEvents srtContent)"

section \<open>The timestamp reading as the specification words it\<close>

definition num :: "string \<Rightarrow> int" where
  \<comment> \<open>a component read as an integer, 0 when it does not parse\<close>
  "num s = or0 (parseInt10 s)"

definition digit_width :: "string \<Rightarrow> nat" where
  \<comment> \<open>the width of a component in digits\<close>
  "digit_width c = length (filter is_digit c)"

definition spec_timeToSeconds :: "string \<Rightarrow> rat option" where
  \<comment> \<open>follows the specification: the string is split on the separators, and a third of
     three components is milliseconds when it exceeds 59 or is 3 digits wide\<close>
  "spec_timeToSeconds x =
     (case js_split match_time_sep x of
        [h, m, s, ms] \<Rightarrow> Some (seconds_of (num h) (num m) (num s) (num ms))
      | [a, b, c] \<Rightarrow>
          if num c > 59 \<or> digit_width c = 3 then Some (seconds_of 0 (num a) (num b) (num c))
          else Some (seconds_of (num a) (num b) (num c) 0)
      | [m, s] \<Rightarrow> Some (seconds_of 0 (num m) (num s) 0)
      | _ \<Rightarrow> None)"

section \<open>Abbreviations used in the statements\<close>

abbreviation has_arrow :: "string \<Rightarrow> bool" where
  "has_arrow l \<equiv> str_includes ''-->'' l"

definition dec_value :: "string \<Rightarrow> nat" where
  \<comment> \<open>the number a string of decimal digits denotes\<close>
  "dec_value s = foldl (\<lambda>a c. a * 10 + digit_value c) 0 s"

definition captions :: "cue list \<Rightarrow> nat list \<Rightarrow> string list" where
  \<comment> \<open>the captions of the frames with the given indices, at 4 frames a second\<close>
  "captions subtitles is = map (\<lambda>i. captionAt subtitles (of_nat i / 4)) is"

definition frame_bytes :: "env \<Rightarrow> string \<Rightarrow> bytes" where
  \<comment> \<open>the bytes the compositor gives for a caption, on the page of the start of the run\<close>
  "frame_bytes E subtitle = fst (renderFrame E subtitle (page E))"

definition page_blind :: "env \<Rightarrow> bool" where
  \<comment> \<open>the bytes of a frame depend on the caption only, not on the page\<close>
  "page_blind E \<longleftrightarrow> (\<forall>subtitle d. fst (renderFrame E subtitle d) = frame_bytes E subtitle)"

definition compose_all :: "env \<Rightarrow> nat \<Rightarrow> string list \<Rightarrow> nat" where
  \<comment> \<open>the page after one call of the compositor for each caption of the list, in order\<close>
  "compose_all E d subtitles = foldl (\<lambda>d subtitle. snd (renderFrame E subtitle d)) d subtitles"

definition written_before_throw :: "env \<Rightarrow> string list" where
  \<comment> \<open>the artifacts a run that throws has written: none when the encoder is not loaded or
     the image does not decode, and otherwise the frames and the audio, in this order, in
     front of the first write that throws\<close>
  "written_before_throw E =
     (if loaded E \<and> imageDecodes E
      then takeWhile (\<lambda>name. \<not> writeFails E name)
             (map frameName [0..<totalFramesOf E] @ [''audio.'' @ audioExt (audioFileName E)])
      else [])"

definition deleted_by_cleanup :: "env \<Rightarrow> string list" where
  \<comment> \<open>the artifacts in front of the first deletion that throws\<close>
  "deleted_by_cleanup E =
     takeWhile (\<lambda>name. \<not> deleteFails E name)
       (map frameName [0..<totalFramesOf E] @ [''audio.'' @ audioExt (audioFileName E), ''output.mp4''])"

definition artifacts :: "env \<Rightarrow> string list" where
  \<comment> \<open>the names the cleanup deletes, in its order: the frames, the audio, the output\<close>
  "artifacts E =
     map frameName [0..<totalFramesOf E] @ [''audio.'' @ audioExt (audioFileName E), ''output.mp4'']"

definition initial_frame_state :: "env \<Rightarrow> storage \<Rightarrow> frame_state" where
  \<comment> \<open>the cache before the first frame\<close>
  "initial_frame_state E fs0 =
     \<lparr>lastSubtitle = [], cachedFrameData = None, files = fs0, document = page E\<rparr>"

definition sample_env :: env where
  \<comment> \<open>a run in which every outside call succeeds: half a second of audio, so two frames;
     the page counts the calls of the compositor\<close>
  "sample_env =
     \<lparr>loaded = True, audioFileName = ''song.mp3'', audioData = [1], durationProbe = Some (1 / 2),
      imageDecodes = True, page = 0, renderFrame = (\<lambda>subtitle d. (map of_char subtitle, Suc d)),
      writeFails = (\<lambda>_. False),
      execFails = False, encodedVideo = [2], deleteFails = (\<lambda>_. False)\<rparr>"

definition round_trip_shape :: "string \<Rightarrow> bool" where
  \<comment> \<open>a recognised shape whose millisecond component, if either reading gives it one,
     is 3 characters wide\<close>
  "round_trip_shape x =
     (case js_split match_time_sep (trim x) of
        [h, m, s, ms] \<Rightarrow> length ms = 3
      | [a, b, c] \<Rightarrow> length c = 3 \<or> (\<not> num c > 59 \<and> \<not> gt59 (parseInt c))
      | [m, s] \<Rightarrow> True
      | _ \<Rightarrow> False)"

section \<open>Canonical timing lines\<close>




definition caption_of_frame :: "cue list \<Rightarrow> nat \<Rightarrow> string" where
  \<comment> \<open>the caption of frame \<open>i\<close>, at 4 frames a second\<close>
  "caption_of_frame subtitles i = captionAt subtitles (of_nat i / 4)"

definition page_before :: "env \<Rightarrow> cue list \<Rightarrow> nat \<Rightarrow> nat" where
  \<comment> \<open>the page after one call of the compositor for each maximal run of equal captions
     among the frames in front of frame \<open>i\<close>\<close>
  "page_before E subtitles i = compose_all E (page E) (remdups_adj (captions subtitles [0..<i]))"

section \<open>Properties\<close>

lemmas str_defs = trim_def trimStart_def trimEnd_def is_ws_def js_split_def match_time_sep_def
  is_time_sep_def parseInt10_def parseInt_def or0_def gt59_def strip_sign_def starts_with_def
  signed_def is_digit_def digit_value_def is_hex_digit_def hex_value_def seconds_of_def
  padStart_def padEnd_def match_literal_def

lemma length_eq_4: "length xs = 4 \<longleftrightarrow> (\<exists>a b c d. xs = [a, b, c, d])"
  by (auto simp: length_Suc_conv numeral_eq_Suc)

lemma length_eq_3: "length xs = 3 \<longleftrightarrow> (\<exists>a b c. xs = [a, b, c])"
  by (auto simp: length_Suc_conv numeral_eq_Suc)

lemma length_eq_2: "length xs = 2 \<longleftrightarrow> (\<exists>a b. xs = [a, b])"
  by (auto simp: length_Suc_conv numeral_eq_Suc)

subsection \<open>Caption wrapping\<close>

lemma wrapLoop_concat:
  "concat (wrapLoop width maxWidth s lines cur) = concat lines @ cur @ s"
  by (induction s arbitrary: lines cur) (simp_all add: Let_def)

lemma wrapLoop_nonempty:
  "[] \<notin> set lines \<Longrightarrow> [] \<notin> set (wrapLoop width maxWidth s lines cur)"
proof (induction s arbitrary: lines cur)
  case Nil
  then show ?case by simp
next
  case (Cons a s)
  show ?case
  proof (cases "width (cur @ [a]) > maxWidth \<and> cur \<noteq> []")
    case True
    with Cons.prems have "[] \<notin> set (lines @ [cur])" by auto
    from Cons.IH[OF this] True show ?thesis by (simp add: Let_def)
  next
    case False
    with Cons.IH[OF Cons.prems] show ?thesis by (auto simp: Let_def)
  qed
qed

text \<open>
  C10. Wrapping loses no text: whatever the measure and the maximal width, the lines
  \<open>wrapText\<close> returns, concatenated in order, are the caption itself, and none of the
  lines is empty.
\<close>

theorem wrapText_lossless:
  "concat (wrapText width txt maxWidth) = txt \<and> [] \<notin> set (wrapText width txt maxWidth)"
proof -
  have "[] \<notin> set (wrapLoop width maxWidth txt [] [])"
    by (rule wrapLoop_nonempty) simp
  then show ?thesis
    by (simp add: wrapText_def wrapLoop_concat)
qed

theorem wrapText_lossless_witness:
  "wrapText (\<lambda>s. of_nat (length s)) ''abcdefg'' 3 = [''abc'', ''def'', ''g'']
   \<and> concat [''abc'', ''def'', ''g''] = ''abcdefg''"
  using wrapText_lossless[of "\<lambda>s. of_nat (length s)" "''abcdefg''" 3]
  by (simp add: wrapText_def)

subsection \<open>Caption of a frame\<close>

lemma find_first:
  "i < length xs \<Longrightarrow> P (xs ! i) \<Longrightarrow> (\<forall>j<i. \<not> P (xs ! j)) \<Longrightarrow> List.find P xs = Some (xs ! i)"
  by (auto simp: find_Some_iff)

text \<open>
  C5. A cue is active at \<open>t\<close> when \<open>startSec \<le> t < endSec\<close>. The caption chosen at \<open>t\<close>
  is empty when no cue is active, and otherwise the text of the first active cue in list
  order. For the cues \<open>[{0,2,A},{2,4,B}]\<close> the caption is \<open>A\<close> at 1.9, \<open>B\<close> at 2.0 and
  empty at 5.0.
\<close>

theorem captionAt_first_match:
  "(activeAt t c \<longleftrightarrow> startSec c \<le> t \<and> t < endSec c)
   \<and> ((\<forall>c \<in> set cues. \<not> activeAt t c) \<longrightarrow> captionAt cues t = [])
   \<and> (i < length cues \<and> activeAt t (cues ! i) \<and> (\<forall>j<i. \<not> activeAt t (cues ! j))
        \<longrightarrow> captionAt cues t = ctext (cues ! i))
   \<and> captionAt [\<lparr>ctext = ''A'', startSec = 0, endSec = 2\<rparr>,
                \<lparr>ctext = ''B'', startSec = 2, endSec = 4\<rparr>] (19 / 10) = ''A''
   \<and> captionAt [\<lparr>ctext = ''A'', startSec = 0, endSec = 2\<rparr>,
                \<lparr>ctext = ''B'', startSec = 2, endSec = 4\<rparr>] 2 = ''B''
   \<and> captionAt [\<lparr>ctext = ''A'', startSec = 0, endSec = 2\<rparr>,
                \<lparr>ctext = ''B'', startSec = 2, endSec = 4\<rparr>] 5 = []"
proof -
  have none: "(\<forall>c \<in> set cues. \<not> activeAt t c) \<longrightarrow> captionAt cues t = []"
    by (simp add: captionAt_def find_None_iff[THEN iffD2])
  have first: "i < length cues \<and> activeAt t (cues ! i) \<and> (\<forall>j<i. \<not> activeAt t (cues ! j))
        \<longrightarrow> captionAt cues t = ctext (cues ! i)"
    by (auto simp: captionAt_def find_first)
  show ?thesis using none first by (simp add: captionAt_def activeAt_def)
qed

theorem captionAt_first_match_witness:
  "captionAt [\<lparr>ctext = ''A'', startSec = 0, endSec = 3\<rparr>, \<lparr>ctext = ''B'', startSec = 2, endSec = 4\<rparr>,
              \<lparr>ctext = ''C'', startSec = 1, endSec = 9\<rparr>] (7 / 2) = ''B''"
  using captionAt_first_match[of "7 / 2" "\<lparr>ctext = ''A'', startSec = 0, endSec = 3\<rparr>"
     "[\<lparr>ctext = ''A'', startSec = 0, endSec = 3\<rparr>, \<lparr>ctext = ''B'', startSec = 2, endSec = 4\<rparr>,
       \<lparr>ctext = ''C'', startSec = 1, endSec = 9\<rparr>]" 1]
  by (simp add: activeAt_def)

subsection \<open>White space, timing lines and blocks\<close>

lemma shapes:
  fixes parts :: "string list"
  obtains (four) a b c d where "parts = [a, b, c, d]"
    | (three) a b c where "parts = [a, b, c]"
    | (two) a b where "parts = [a, b]"
    | (other) "length parts \<noteq> 4" "length parts \<noteq> 3" "length parts \<noteq> 2"
proof (cases "length parts = 4")
  case True
  then obtain a b c d where "parts = [a, b, c, d]" unfolding length_eq_4 by auto
  then show ?thesis by (rule four)
next
  case n4: False
  show ?thesis
  proof (cases "length parts = 3")
    case True
    then obtain a b c where "parts = [a, b, c]" unfolding length_eq_3 by auto
    then show ?thesis by (rule three)
  next
    case n3: False
    show ?thesis
    proof (cases "length parts = 2")
      case True
      then obtain a b where "parts = [a, b]" unfolding length_eq_2 by auto
      then show ?thesis by (rule two)
    next
      case False
      with n4 n3 show ?thesis by (rule other)
    qed
  qed
qed

lemma last_dropWhile: "dropWhile P xs \<noteq> [] \<Longrightarrow> last (dropWhile P xs) = last xs"
  by (induction xs) (auto split: if_splits)

lemma trimEnd_id: "s = [] \<or> \<not> is_ws (last s) \<Longrightarrow> trimEnd s = s"
  unfolding trimEnd_def by (cases s rule: rev_cases) auto

lemma trimStart_id: "s = [] \<or> \<not> is_ws (hd s) \<Longrightarrow> trimStart s = s"
  unfolding trimStart_def by (cases s) auto

lemma trim_id: "s = [] \<or> (\<not> is_ws (hd s) \<and> \<not> is_ws (last s)) \<Longrightarrow> trim s = s"
  unfolding trim_def using trimEnd_id trimStart_id by metis

lemma trimEnd_last: "trimEnd s \<noteq> [] \<Longrightarrow> \<not> is_ws (last (trimEnd s))"
  unfolding trimEnd_def using hd_dropWhile[of is_ws "rev s"] by (simp add: last_rev)

lemma trimEnd_hd: "s \<noteq> [] \<Longrightarrow> \<not> is_ws (hd s) \<Longrightarrow> trimEnd s \<noteq> [] \<and> hd (trimEnd s) = hd s"
proof -
  assume a: "s \<noteq> []" "\<not> is_ws (hd s)"
  then have l: "\<not> is_ws (last (rev s))" by (simp add: last_rev)
  have ne: "dropWhile is_ws (rev s) \<noteq> []"
  proof
    assume "dropWhile is_ws (rev s) = []"
    then have "\<forall>x\<in>set (rev s). is_ws x" by (simp add: dropWhile_eq_Nil_conv)
    moreover have "last (rev s) \<in> set (rev s)" using a by (intro last_in_set) simp
    ultimately show False using l by blast
  qed
  then have "last (dropWhile is_ws (rev s)) = last (rev s)" by (rule last_dropWhile)
  then show ?thesis using ne a unfolding trimEnd_def by (simp add: hd_rev last_rev)
qed

lemma trim_ends: "trim s = [] \<or> (\<not> is_ws (hd (trim s)) \<and> \<not> is_ws (last (trim s)))"
proof (cases "trimStart s = []")
  case True
  then show ?thesis by (simp add: trim_def trimEnd_def)
next
  case False
  then have h: "\<not> is_ws (hd (trimStart s))"
    unfolding trimStart_def by (simp add: hd_dropWhile)
  from trimEnd_hd[OF False h] trimEnd_last[of "trimStart s"] h show ?thesis
    by (simp add: trim_def)
qed

lemma trim_idem: "trim (trim s) = trim s"
  using trim_ends[of s] by (intro trim_id) auto

lemma timeToSeconds_trim: "timeToSeconds (trim s) = timeToSeconds s"
  by (simp add: timeToSeconds_def trim_idem)

lemma fixSingleTime_trim: "fixSingleTime (trim s) = fixSingleTime s"
  by (simp add: fixSingleTime_def trim_idem)

lemma has_arrow_nonempty: "has_arrow l \<Longrightarrow> l \<noteq> []"
  by (auto simp: starts_with_def)

lemma findTiming_none: "\<forall>l\<in>set ls. \<not> has_arrow l \<Longrightarrow> findTiming ls i = ([], 0)"
  by (induction ls arbitrary: i) auto

lemma findTiming_first:
  "\<forall>x\<in>set pre. \<not> has_arrow x \<Longrightarrow> has_arrow l
   \<Longrightarrow> findTiming (pre @ l # post) i = (l, i + length pre + 1)"
  by (induction pre arbitrary: i) auto

lemma findTiming_found:
  "findTiming ls i = (l, k) \<Longrightarrow> l \<noteq> []
   \<Longrightarrow> \<exists>pre post. ls = pre @ l # post \<and> (\<forall>x\<in>set pre. \<not> has_arrow x) \<and> has_arrow l
         \<and> k = i + length pre + 1"
proof (induction ls arbitrary: i)
  case Nil
  then show ?case by simp
next
  case (Cons a ls)
  show ?case
  proof (cases "has_arrow a")
    case True
    with Cons.prems have "a = l" "k = i + 1" by auto
    with True show ?thesis by (intro exI[of _ "[]"] exI[of _ ls]) simp
  next
    case False
    with Cons.prems have "findTiming ls (i + 1) = (l, k)" by simp
    from Cons.IH[OF this Cons.prems(2)] obtain pre post where
      "ls = pre @ l # post" "\<forall>x\<in>set pre. \<not> has_arrow x" "has_arrow l" "k = i + 1 + length pre + 1"
      by blast
    with False show ?thesis by (intro exI[of _ "a # pre"] exI[of _ post]) simp
  qed
qed

lemma parseBlocks_map_filter: "parseBlocks bs = List.map_filter parseBlock bs"
  by (induction bs) (auto simp: List.map_filter_simps split: option.splits)

lemma parseBlocks_mem:
  "c \<in> set (parseBlocks bs) \<longleftrightarrow> (\<exists>b\<in>set bs. parseBlock b = Some c)"
  by (induction bs) (auto split: option.splits)

lemma parseBlock_no_arrow:
  "\<forall>l\<in>set (js_split match_newline b). \<not> has_arrow l \<Longrightarrow> parseBlock b = None"
  by (simp add: parseBlock_def Let_def findTiming_none)

lemma parseBlock_with_arrow:
  assumes "js_split match_newline b = pre @ l # post" "\<forall>x\<in>set pre. \<not> has_arrow x" "has_arrow l"
  shows "parseBlock b =
     (if length (pre @ l # post) < 2 then None
      else (let parts = map trim (js_split (match_literal ''-->'') l)
            in if length parts \<noteq> 2 then None
               else (case (timeToSeconds (parts ! 0), timeToSeconds (parts ! 1)) of
                       (Some s, Some e) \<Rightarrow>
                         (let txt = join '' '' (filter (\<lambda>l. trim l \<noteq> []) post)
                          in if txt \<noteq> [] then Some \<lparr>ctext = txt, startSec = s, endSec = e\<rparr> else None)
                     | _ \<Rightarrow> None)))"
  using assms has_arrow_nonempty[OF assms(3)]
  by (simp add: parseBlock_def Let_def findTiming_first del: str_includes.simps
        split: option.splits)

lemma trim_empty_iff: "trim s = [] \<longleftrightarrow> (\<forall>c\<in>set s. is_ws c)"
proof
  assume "trim s = []"
  then have "dropWhile is_ws (rev (dropWhile is_ws s)) = []"
    by (simp add: trim_def trimEnd_def trimStart_def)
  then have all: "\<forall>c\<in>set (dropWhile is_ws s). is_ws c"
    by (simp add: dropWhile_eq_Nil_conv)
  have "dropWhile is_ws s = []"
  proof (rule ccontr)
    assume ne: "dropWhile is_ws s \<noteq> []"
    then have "\<not> is_ws (hd (dropWhile is_ws s))" by (simp add: hd_dropWhile)
    moreover have "hd (dropWhile is_ws s) \<in> set (dropWhile is_ws s)" using ne by simp
    ultimately show False using all by blast
  qed
  then show "\<forall>c\<in>set s. is_ws c" by (simp add: dropWhile_eq_Nil_conv)
next
  assume "\<forall>c\<in>set s. is_ws c"
  then have d: "dropWhile is_ws s = []" by (simp add: dropWhile_eq_Nil_conv)
  show "trim s = []" unfolding trim_def trimEnd_def trimStart_def d by simp
qed

lemma set_join: "x \<in> set xs \<Longrightarrow> set x \<subseteq> set (join sep xs)"
proof (induction sep xs rule: join.induct)
  case (1 sep)
  then show ?case by simp
next
  case (2 sep y)
  then show ?case by simp
next
  case (3 sep a b ys)
  then show ?case by (cases "x = a") auto
qed

lemma blank_text_lines:
  assumes "trim (join '' '' post) = []"
  shows "filter (\<lambda>l. trim l \<noteq> []) post = []"
proof -
  have all: "\<forall>c\<in>set (join '' '' post). is_ws c"
    using assms by (simp only: trim_empty_iff)
  have "trim x = []" if "x \<in> set post" for x
  proof -
    from set_join[OF that, of "'' ''"] all have "\<forall>c\<in>set x. is_ws c" by blast
    then show ?thesis by (simp only: trim_empty_iff)
  qed
  then show ?thesis by (simp add: filter_empty_conv)
qed

subsection \<open>Subtitle track parser\<close>

lemma parseBlock_arrow_split:
  assumes "js_split match_newline b = pre @ l # post" "\<forall>x\<in>set pre. \<not> has_arrow x" "has_arrow l"
    and "length (js_split (match_literal ''-->'') l) \<noteq> 2"
  shows "parseBlock b = None"
  using assms(4) by (simp add: parseBlock_with_arrow[OF assms(1-3)] Let_def)

lemma parseBlock_bad_time:
  assumes "js_split match_newline b = pre @ l # post" "\<forall>x\<in>set pre. \<not> has_arrow x" "has_arrow l"
    and "\<exists>p\<in>set (js_split (match_literal ''-->'') l). timeToSeconds p = None"
  shows "parseBlock b = None"
proof (cases "length (js_split (match_literal ''-->'') l) = 2")
  case False
  then show ?thesis by (rule parseBlock_arrow_split[OF assms(1-3)])
next
  case True
  then obtain p0 p1 where ps: "js_split (match_literal ''-->'') l = [p0, p1]"
    unfolding length_eq_2 by auto
  with assms(4) have "timeToSeconds p0 = None \<or> timeToSeconds p1 = None" by auto
  then show ?thesis
    by (auto simp: parseBlock_with_arrow[OF assms(1-3)] Let_def ps timeToSeconds_trim
             split: option.splits)
qed

lemma parseBlock_blank_text:
  assumes "js_split match_newline b = pre @ l # post" "\<forall>x\<in>set pre. \<not> has_arrow x" "has_arrow l"
    and "trim (join '' '' post) = []"
  shows "parseBlock b = None"
  by (simp add: parseBlock_with_arrow[OF assms(1-3)] Let_def blank_text_lines[OF assms(4)]
           split: option.splits)

text \<open>
  C9. The parser is a total function of the document: its cues are the contributions of
  the blocks, in order, each block giving one cue or none. A block with no line that
  contains the arrow gives none. With \<open>l\<close> the first line that contains the arrow and
  \<open>post\<close> the lines below it, the block gives none when \<open>l\<close> does not split on the
  arrow into exactly two pieces, when a piece has no recognised shape, or when the text
  below, joined with spaces, is empty after trimming. A document of one well-formed block
  and one block without the arrow gives exactly one cue.
\<close>

theorem parser_drops_malformed_blocks:
  "parseSrtToSubtitles doc = List.map_filter parseBlock (js_split match_blank (trim doc))
   \<and> ((\<forall>x\<in>set (js_split match_newline b). \<not> has_arrow x) \<longrightarrow> parseBlock b = None)
   \<and> (js_split match_newline b = pre @ l # post \<and> (\<forall>x\<in>set pre. \<not> has_arrow x) \<and> has_arrow l
        \<and> (length (js_split (match_literal ''-->'') l) \<noteq> 2
             \<or> (\<exists>p\<in>set (js_split (match_literal ''-->'') l). timeToSeconds p = None)
             \<or> trim (join '' '' post) = [])
       \<longrightarrow> parseBlock b = None)
   \<and> parseSrtToSubtitles
         (''1'' @ [CHR 0x0A] @ ''00:00:01,000 --> 00:00:04,000'' @ [CHR 0x0A] @ ''Hello''
          @ [CHR 0x0A, CHR 0x0A] @ ''2'' @ [CHR 0x0A] @ ''no arrow here'' @ [CHR 0x0A] @ ''World'')
       = [\<lparr>ctext = ''Hello'', startSec = 1, endSec = 4\<rparr>]"
proof -
  have p1: "parseSrtToSubtitles doc = List.map_filter parseBlock (js_split match_blank (trim doc))"
    by (simp add: parseSrtToSubtitles_def parseBlocks_map_filter)
  have p2: "(\<forall>x\<in>set (js_split match_newline b). \<not> has_arrow x) \<longrightarrow> parseBlock b = None"
    using parseBlock_no_arrow by blast
  have p3: "js_split match_newline b = pre @ l # post \<and> (\<forall>x\<in>set pre. \<not> has_arrow x) \<and> has_arrow l
        \<and> (length (js_split (match_literal ''-->'') l) \<noteq> 2
             \<or> (\<exists>p\<in>set (js_split (match_literal ''-->'') l). timeToSeconds p = None)
             \<or> trim (join '' '' post) = [])
       \<longrightarrow> parseBlock b = None"
    using parseBlock_arrow_split parseBlock_bad_time parseBlock_blank_text by blast
  have p4: "parseSrtToSubtitles
         (''1'' @ [CHR 0x0A] @ ''00:00:01,000 --> 00:00:04,000'' @ [CHR 0x0A] @ ''Hello''
          @ [CHR 0x0A, CHR 0x0A] @ ''2'' @ [CHR 0x0A] @ ''no arrow here'' @ [CHR 0x0A] @ ''World'')
       = [\<lparr>ctext = ''Hello'', startSec = 1, endSec = 4\<rparr>]"
    by code_simp
  show ?thesis by (intro conjI p1 p2 p3 p4)
qed


theorem parser_drops_malformed_blocks_witness:
  "parseBlock (''2'' @ [CHR 0x0A] @ ''no arrow here'' @ [CHR 0x0A] @ ''World'') = None
   \<and> parseBlock (''1'' @ [CHR 0x0A] @ ''00:01 --> 00:02 --> 00:03'' @ [CHR 0x0A] @ ''Hi'') = None
   \<and> parseBlock (''1'' @ [CHR 0x0A] @ ''00:01 --> 7'' @ [CHR 0x0A] @ ''Hi'') = None
   \<and> parseBlock (''1'' @ [CHR 0x0A] @ ''00:01 --> 00:02'' @ [CHR 0x0A] @ ''  '') = None"
proof -
  have h1: "\<forall>x\<in>set (js_split match_newline (''2'' @ [CHR 0x0A] @ ''no arrow here'' @ [CHR 0x0A] @ ''World'')).
              \<not> has_arrow x"
    by code_simp
  have c1: "parseBlock (''2'' @ [CHR 0x0A] @ ''no arrow here'' @ [CHR 0x0A] @ ''World'') = None"
    using parser_drops_malformed_blocks[of "[]" "''2'' @ [CHR 0x0A] @ ''no arrow here'' @ [CHR 0x0A] @ ''World''"]
      h1 by blast
  have h2: "js_split match_newline (''1'' @ [CHR 0x0A] @ ''00:01 --> 00:02 --> 00:03'' @ [CHR 0x0A] @ ''Hi'')
              = [''1''] @ ''00:01 --> 00:02 --> 00:03'' # [''Hi'']
            \<and> \<not> has_arrow ''1'' \<and> has_arrow ''00:01 --> 00:02 --> 00:03''
            \<and> length (js_split (match_literal ''-->'') ''00:01 --> 00:02 --> 00:03'') \<noteq> 2"
    by code_simp
  have c2: "parseBlock (''1'' @ [CHR 0x0A] @ ''00:01 --> 00:02 --> 00:03'' @ [CHR 0x0A] @ ''Hi'') = None"
    using parser_drops_malformed_blocks[of "[]"
        "''1'' @ [CHR 0x0A] @ ''00:01 --> 00:02 --> 00:03'' @ [CHR 0x0A] @ ''Hi''"
        "[''1'']" "''00:01 --> 00:02 --> 00:03''" "[''Hi'']"] h2
    by simp
  have h3: "js_split match_newline (''1'' @ [CHR 0x0A] @ ''00:01 --> 7'' @ [CHR 0x0A] @ ''Hi'')
              = [''1''] @ ''00:01 --> 7'' # [''Hi'']
            \<and> \<not> has_arrow ''1'' \<and> has_arrow ''00:01 --> 7''
            \<and> (\<exists>p\<in>set (js_split (match_literal ''-->'') ''00:01 --> 7''). timeToSeconds p = None)"
    by code_simp
  have c3: "parseBlock (''1'' @ [CHR 0x0A] @ ''00:01 --> 7'' @ [CHR 0x0A] @ ''Hi'') = None"
    using parser_drops_malformed_blocks[of "[]"
        "''1'' @ [CHR 0x0A] @ ''00:01 --> 7'' @ [CHR 0x0A] @ ''Hi''"
        "[''1'']" "''00:01 --> 7''" "[''Hi'']"] h3
    by simp
  have h4: "js_split match_newline (''1'' @ [CHR 0x0A] @ ''00:01 --> 00:02'' @ [CHR 0x0A] @ ''  '')
              = [''1''] @ ''00:01 --> 00:02'' # [''  '']
            \<and> \<not> has_arrow ''1'' \<and> has_arrow ''00:01 --> 00:02''
            \<and> trim (join '' '' [''  '']) = []"
    by code_simp
  have c4: "parseBlock (''1'' @ [CHR 0x0A] @ ''00:01 --> 00:02'' @ [CHR 0x0A] @ ''  '') = None"
    using parser_drops_malformed_blocks[of "[]"
        "''1'' @ [CHR 0x0A] @ ''00:01 --> 00:02'' @ [CHR 0x0A] @ ''  ''"
        "[''1'']" "''00:01 --> 00:02''" "[''  '']"] h4
    by simp
  show ?thesis by (intro conjI c1 c2 c3 c4)
qed

text \<open>
  C8 (as amended). Every cue the parser produces has a non-empty text and carries,
  unchanged, the values \<open>timeToSeconds\<close> gives for the two pieces around the arrow of its
  block's timing line, start first; the parser compares neither with the other, so the
  end is at or after the start exactly when the document's timestamps read so.
\<close>

theorem cue_times_from_source:
  assumes "c \<in> set (parseSrtToSubtitles doc)"
  shows "\<exists>b\<in>set (js_split match_blank (trim doc)). \<exists>pre l post p0 p1.
           js_split match_newline b = pre @ l # post
           \<and> (\<forall>x\<in>set pre. \<not> has_arrow x) \<and> has_arrow l
           \<and> js_split (match_literal ''-->'') l = [p0, p1]
           \<and> timeToSeconds p0 = Some (startSec c) \<and> timeToSeconds p1 = Some (endSec c)
           \<and> ctext c = join '' '' (filter (\<lambda>x. trim x \<noteq> []) post) \<and> ctext c \<noteq> []"
proof -
  from assms obtain b where b: "b \<in> set (js_split match_blank (trim doc))"
    and pb: "parseBlock b = Some c"
    unfolding parseSrtToSubtitles_def parseBlocks_mem by blast
  obtain l k where ft: "findTiming (js_split match_newline b) 0 = (l, k)"
    by (cases "findTiming (js_split match_newline b) 0")
  have "l \<noteq> []"
    using pb ft by (auto simp: parseBlock_def Let_def split: if_splits)
  from findTiming_found[OF ft this] obtain pre post where
    ls: "js_split match_newline b = pre @ l # post" and
    np: "\<forall>x\<in>set pre. \<not> has_arrow x" and ha: "has_arrow l"
    by blast
  note eq = parseBlock_with_arrow[OF ls np ha]
  have len: "length (js_split (match_literal ''-->'') l) = 2"
    using pb unfolding eq by (auto simp: Let_def split: if_splits)
  then obtain p0 p1 where ps: "js_split (match_literal ''-->'') l = [p0, p1]"
    unfolding length_eq_2 by auto
  have "timeToSeconds p0 = Some (startSec c) \<and> timeToSeconds p1 = Some (endSec c)
        \<and> ctext c = join '' '' (filter (\<lambda>x. trim x \<noteq> []) post) \<and> ctext c \<noteq> []"
    using pb unfolding eq
    by (auto simp: Let_def ps timeToSeconds_trim split: if_splits option.splits)
  with b ls np ha ps show ?thesis by blast
qed

theorem cue_times_from_source_witness:
  "\<exists>b\<in>set (js_split match_blank
              (trim (''1'' @ [CHR 0x0A] @ ''00:00:05,000 --> 00:00:01,000'' @ [CHR 0x0A] @ ''late''))).
     \<exists>pre l post p0 p1.
           js_split match_newline b = pre @ l # post
           \<and> (\<forall>x\<in>set pre. \<not> has_arrow x) \<and> has_arrow l
           \<and> js_split (match_literal ''-->'') l = [p0, p1]
           \<and> timeToSeconds p0 = Some (startSec \<lparr>ctext = ''late'', startSec = 5, endSec = 1\<rparr>)
           \<and> timeToSeconds p1 = Some (endSec \<lparr>ctext = ''late'', startSec = 5, endSec = 1\<rparr>)
           \<and> ctext \<lparr>ctext = ''late'', startSec = 5, endSec = 1\<rparr>
               = join '' '' (filter (\<lambda>x. trim x \<noteq> []) post)
           \<and> ctext \<lparr>ctext = ''late'', startSec = 5, endSec = 1\<rparr> \<noteq> []"
proof (rule cue_times_from_source)
  show "\<lparr>ctext = ''late'', startSec = 5, endSec = 1\<rparr>
        \<in> set (parseSrtToSubtitles
                 (''1'' @ [CHR 0x0A] @ ''00:00:05,000 --> 00:00:01,000'' @ [CHR 0x0A] @ ''late''))"
    by code_simp
qed

theorem cue_order_counterexample:
  "parseSrtToSubtitles (''1'' @ [CHR 0x0A] @ ''00:00:05,000 --> 00:00:01,000'' @ [CHR 0x0A] @ ''late'')
     = [\<lparr>ctext = ''late'', startSec = 5, endSec = 1\<rparr>]
   \<and> \<not> endSec \<lparr>ctext = ''late'', startSec = 5, endSec = 1\<rparr>
         \<ge> startSec \<lparr>ctext = ''late'', startSec = 5, endSec = 1\<rparr>"
  by code_simp

subsection \<open>Canonical timestamps\<close>

lemma split_time_Cons:
  "split_with match_time_sep acc (c # cs) =
     (if is_time_sep c then rev acc # split_with match_time_sep [] cs
      else split_with match_time_sep (c # acc) cs)"
  by (simp add: match_time_sep_def)

lemma split_time_nosep:
  "\<forall>c\<in>set a. \<not> is_time_sep c \<Longrightarrow> split_with match_time_sep acc a = [rev acc @ a]"
  by (induction a arbitrary: acc) (simp_all add: split_time_Cons del: split_with.simps(2))

lemma split_time_sep:
  "\<forall>c\<in>set a. \<not> is_time_sep c \<Longrightarrow> is_time_sep s
   \<Longrightarrow> split_with match_time_sep acc (a @ s # rest) = (rev acc @ a) # split_with match_time_sep [] rest"
  by (induction a arbitrary: acc) (simp_all add: split_time_Cons del: split_with.simps(2))

lemma split_time_parts_nosep:
  "p \<in> set (split_with match_time_sep acc s) \<Longrightarrow> \<forall>c\<in>set acc. \<not> is_time_sep c
   \<Longrightarrow> \<forall>c\<in>set p. \<not> is_time_sep c"
proof (induction s arbitrary: acc)
  case Nil
  then show ?case by simp
next
  case (Cons c cs)
  show ?case
  proof (cases "is_time_sep c")
    case True
    with Cons.prems(1) have "p = rev acc \<or> p \<in> set (split_with match_time_sep [] cs)"
      by (simp add: split_time_Cons del: split_with.simps(2))
    then show ?thesis using Cons.IH[of "[]"] Cons.prems(2) by auto
  next
    case False
    with Cons.prems(1) have "p \<in> set (split_with match_time_sep (c # acc) cs)"
      by (simp add: split_time_Cons del: split_with.simps(2))
    from Cons.IH[OF this] False Cons.prems(2) show ?thesis by simp
  qed
qed

lemma js_split_time_parts_nosep:
  "p \<in> set (js_split match_time_sep s) \<Longrightarrow> \<forall>c\<in>set p. \<not> is_time_sep c"
  unfolding js_split_def using split_time_parts_nosep[of p "[]" s] by simp

lemma split_time_first:
  "\<exists>rest. split_with match_time_sep acc s = (rev acc @ takeWhile (\<lambda>c. \<not> is_time_sep c) s) # rest"
proof (induction s arbitrary: acc)
  case Nil
  then show ?case by simp
next
  case (Cons c cs)
  from Cons.IH[of "c # acc"] show ?case
    by (auto simp: split_time_Cons simp del: split_with.simps(2))
qed

lemma split_time_last:
  "s \<noteq> [] \<Longrightarrow> last (split_with match_time_sep acc s) = [] \<or>
     last (last (split_with match_time_sep acc s)) = last s"
proof (induction s arbitrary: acc)
  case Nil
  then show ?case by simp
next
  case (Cons c cs)
  have ne: "split_with match_time_sep a cs \<noteq> []" for a
    using split_time_first[of a cs] by auto
  show ?case
  proof (cases "cs = []")
    case True
    then show ?thesis by (simp add: split_time_Cons del: split_with.simps(2))
  next
    case False
    from Cons.IH[OF False] ne False show ?thesis
      by (simp add: split_time_Cons del: split_with.simps(2))
  qed
qed

lemma js_split_time4:
  assumes "\<forall>c\<in>set A. \<not> is_time_sep c" "\<forall>c\<in>set B. \<not> is_time_sep c"
    "\<forall>c\<in>set C. \<not> is_time_sep c" "\<forall>c\<in>set D. \<not> is_time_sep c"
    "is_time_sep s1" "is_time_sep s2" "is_time_sep s3"
  shows "js_split match_time_sep (A @ s1 # B @ s2 # C @ s3 # D) = [A, B, C, D]"
  unfolding js_split_def
  by (simp add: split_time_sep[OF assms(1) assms(5)] split_time_sep[OF assms(2) assms(6)]
        split_time_sep[OF assms(3) assms(7)] split_time_nosep[OF assms(4)])

lemma num_padStart: "num (padStart 2 CHR ''0'' s) = num s"
proof (cases s)
  case Nil
  then show ?thesis by (simp add: num_def str_defs numeral_2_eq_2)
next
  case (Cons c cs)
  show ?thesis
  proof (cases cs)
    case Nil
    have "is_ws c \<Longrightarrow> \<not> is_digit c" by (auto simp: is_ws_def is_digit_def)
    moreover have "c = CHR ''-'' \<Longrightarrow> \<not> is_digit c" by (auto simp: is_digit_def)
    moreover have "c = CHR ''+'' \<Longrightarrow> \<not> is_digit c" by (auto simp: is_digit_def)
    moreover have "\<not> is_ws CHR ''0''" "is_digit CHR ''0''" "digit_value CHR ''0'' = 0"
      by (simp_all add: is_ws_def is_digit_def digit_value_def)
    ultimately show ?thesis using Cons Nil
      by (auto simp: num_def padStart_def parseInt10_def trimStart_def strip_sign_def starts_with_def
            signed_def or0_def numeral_2_eq_2 Let_def)
  next
    case (Cons d ds)
    with \<open>s = c # cs\<close> show ?thesis by (simp add: padStart_def)
  qed
qed


lemma time_seps: "is_time_sep CHR '':''" "is_time_sep CHR '',''" "\<not> is_time_sep CHR ''0''"
  by (simp_all add: is_time_sep_def)

lemma padStart_nosep: "\<forall>c\<in>set p. \<not> is_time_sep c \<Longrightarrow> \<forall>c\<in>set (padStart 2 CHR ''0'' p). \<not> is_time_sep c"
  using time_seps(3) by (auto simp: padStart_def)

lemma ms3_nosep:
  "\<forall>c\<in>set p. \<not> is_time_sep c \<Longrightarrow> \<forall>c\<in>set (take 3 (padEnd 3 CHR ''0'' p)). \<not> is_time_sep c"
proof
  fix c assume a: "\<forall>c\<in>set p. \<not> is_time_sep c" and m: "c \<in> set (take 3 (padEnd 3 CHR ''0'' p))"
  from m have "c \<in> set (padEnd 3 CHR ''0'' p)" by (rule in_set_takeD)
  then have "c \<in> set p \<or> c = CHR ''0''" by (auto simp: padEnd_def)
  with a time_seps(3) show "\<not> is_time_sep c" by auto
qed

lemma padStart_nonempty: "padStart 2 CHR ''0'' p \<noteq> []"
  by (cases p) (simp_all add: padStart_def)

lemma padStart_hd: "p = [] \<or> \<not> is_ws (hd p) \<Longrightarrow> \<not> is_ws (hd (padStart 2 CHR ''0'' p))"
  by (cases p; cases "tl p") (auto simp: padStart_def is_ws_def numeral_2_eq_2)

lemma padStart_idem: "padStart 2 CHR ''0'' (padStart 2 CHR ''0'' p) = padStart 2 CHR ''0'' p"
  by (simp add: padStart_def)

lemma ms3_idem:
  "take 3 (padEnd 3 CHR ''0'' (take 3 (padEnd 3 CHR ''0'' p))) = take 3 (padEnd 3 CHR ''0'' p)"
  by (simp add: padEnd_def)

lemma ms3_id: "length p = 3 \<Longrightarrow> take 3 (padEnd 3 CHR ''0'' p) = p"
  by (simp add: padEnd_def)

lemma reparse:
  assumes "\<forall>c\<in>set A. \<not> is_time_sep c" "\<forall>c\<in>set B. \<not> is_time_sep c"
    "\<forall>c\<in>set C. \<not> is_time_sep c" "\<forall>c\<in>set D. \<not> is_time_sep c"
    and "A \<noteq> []" "\<not> is_ws (hd A)"
    and "trimEnd (A @ CHR '':'' # B @ CHR '':'' # C @ CHR '','' # D) = A @ CHR '':'' # B @ CHR '':'' # C @ CHR '','' # D"
  shows "js_split match_time_sep (trim (A @ CHR '':'' # B @ CHR '':'' # C @ CHR '','' # D)) = [A, B, C, D]"
proof -
  have "trimStart (A @ CHR '':'' # B @ CHR '':'' # C @ CHR '','' # D) = A @ CHR '':'' # B @ CHR '':'' # C @ CHR '','' # D"
    using assms(5,6) by (intro trimStart_id) simp
  then have "trim (A @ CHR '':'' # B @ CHR '':'' # C @ CHR '','' # D) = A @ CHR '':'' # B @ CHR '':'' # C @ CHR '','' # D"
    using assms(7) by (simp add: trim_def)
  then show ?thesis
    using js_split_time4[OF assms(1-4) time_seps(1) time_seps(1) time_seps(2)] by simp
qed

lemma first_part_hd:
  assumes "js_split match_time_sep (trim x) = p # ps"
  shows "p = [] \<or> \<not> is_ws (hd p)"
proof (cases "p = []")
  case True
  then show ?thesis by simp
next
  case False
  from split_time_first[of "[]" "trim x"] assms
  have p: "p = takeWhile (\<lambda>c. \<not> is_time_sep c) (trim x)" by (auto simp: js_split_def)
  with False have ne: "trim x \<noteq> []" by auto
  from p False have "hd p = hd (trim x)" by (cases "trim x") (auto split: if_splits)
  with trim_ends[of x] ne show ?thesis by simp
qed

lemma last_part_last:
  assumes "js_split match_time_sep (trim x) = ps @ [p]" "p \<noteq> []"
  shows "\<not> is_ws (last p)"
proof -
  have ne: "trim x \<noteq> []"
  proof
    assume "trim x = []"
    with assms show False by (simp add: js_split_def)
  qed
  from split_time_last[OF ne, of "[]"] assms have "last p = last (trim x)"
    by (simp add: js_split_def)
  with trim_ends[of x] ne show ?thesis by simp
qed

lemma fix4:
  "js_split match_time_sep (trim s) = [a, b, c, d] \<Longrightarrow>
   fixSingleTime s = padStart 2 CHR ''0'' a @ CHR '':'' # padStart 2 CHR ''0'' b @ CHR '':'' #
                       padStart 2 CHR ''0'' c @ CHR '','' # take 3 (padEnd 3 CHR ''0'' d)"
  by (simp add: fixSingleTime_def)

lemma fix3:
  "js_split match_time_sep (trim s) = [a, b, c] \<Longrightarrow>
   fixSingleTime s =
     (if gt59 (parseInt c) \<or> length c = 3
      then ''00'' @ CHR '':'' # padStart 2 CHR ''0'' a @ CHR '':'' #
             padStart 2 CHR ''0'' b @ CHR '','' # take 3 (padEnd 3 CHR ''0'' c)
      else padStart 2 CHR ''0'' a @ CHR '':'' # padStart 2 CHR ''0'' b @ CHR '':'' #
             padStart 2 CHR ''0'' c @ CHR '','' # ''000'')"
  by (simp add: fixSingleTime_def)

lemma fix2:
  "js_split match_time_sep (trim s) = [a, b] \<Longrightarrow>
   fixSingleTime s = ''00'' @ CHR '':'' # padStart 2 CHR ''0'' a @ CHR '':'' #
                       padStart 2 CHR ''0'' b @ CHR '','' # ''000''"
  by (simp add: fixSingleTime_def)

lemma time4:
  "js_split match_time_sep (trim s) = [a, b, c, d] \<Longrightarrow>
   timeToSeconds s = Some (seconds_of (num a) (num b) (num c) (num d))"
  by (simp add: timeToSeconds_def num_def)

lemma canon_fixed:
  assumes "\<forall>c\<in>set A. \<not> is_time_sep c" "\<forall>c\<in>set B. \<not> is_time_sep c"
    "\<forall>c\<in>set C. \<not> is_time_sep c" "\<forall>c\<in>set D. \<not> is_time_sep c"
    and "A \<noteq> []" "\<not> is_ws (hd A)"
    and "trimEnd (A @ CHR '':'' # B @ CHR '':'' # C @ CHR '','' # D) = A @ CHR '':'' # B @ CHR '':'' # C @ CHR '','' # D"
    and "padStart 2 CHR ''0'' A = A" "padStart 2 CHR ''0'' B = B" "padStart 2 CHR ''0'' C = C"
    and "take 3 (padEnd 3 CHR ''0'' D) = D"
  shows "fixSingleTime (A @ CHR '':'' # B @ CHR '':'' # C @ CHR '','' # D)
           = A @ CHR '':'' # B @ CHR '':'' # C @ CHR '','' # D"
  using fix4[OF reparse[OF assms(1-7)]] assms(8-11) by simp

lemma time3:
  "js_split match_time_sep (trim s) = [a, b, c] \<Longrightarrow>
   timeToSeconds s = (if num c > 59 \<or> length c = 3 then Some (seconds_of 0 (num a) (num b) (num c))
                      else Some (seconds_of (num a) (num b) (num c) 0))"
  by (simp add: timeToSeconds_def num_def)

lemma time2:
  "js_split match_time_sep (trim s) = [a, b] \<Longrightarrow>
   timeToSeconds s = Some (seconds_of 0 (num a) (num b) 0)"
  by (simp add: timeToSeconds_def num_def)

lemma num_zeros: "num ''00'' = 0" "num ''000'' = 0"
  by (simp_all add: num_def str_defs)

lemma zeros_plain:
  "\<forall>c\<in>set ''00''. \<not> is_time_sep c" "\<forall>c\<in>set ''000''. \<not> is_time_sep c"
  "\<not> is_ws (hd ''00'')" "padStart 2 CHR ''0'' ''00'' = ''00''"
  "take 3 (padEnd 3 CHR ''0'' ''000'') = ''000''"
  by (simp_all add: is_time_sep_def is_ws_def padStart_def padEnd_def)

lemma trimEnd_zeros: "trimEnd (s @ ''000'') = s @ ''000''"
  by (rule trimEnd_id) (simp add: is_ws_def)

lemma fix_idem_shape:
  assumes "\<forall>c\<in>set A. \<not> is_time_sep c" "\<forall>c\<in>set B. \<not> is_time_sep c"
    "\<forall>c\<in>set C. \<not> is_time_sep c" "\<forall>c\<in>set D. \<not> is_time_sep c"
    and "A \<noteq> []" "\<not> is_ws (hd A)"
    and "padStart 2 CHR ''0'' A = A" "padStart 2 CHR ''0'' B = B" "padStart 2 CHR ''0'' C = C"
    and "take 3 (padEnd 3 CHR ''0'' D) = D"
    and "fixSingleTime x = A @ CHR '':'' # B @ CHR '':'' # C @ CHR '','' # D"
    and "trimEnd (fixSingleTime x) = fixSingleTime x"
  shows "fixSingleTime (fixSingleTime x) = fixSingleTime x"
proof -
  from assms(11,12) have
    "trimEnd (A @ CHR '':'' # B @ CHR '':'' # C @ CHR '','' # D) = A @ CHR '':'' # B @ CHR '':'' # C @ CHR '','' # D"
    by simp
  from canon_fixed[OF assms(1-6) this assms(7-10)] assms(11) show ?thesis by simp
qed

lemma fixSingleTime_idem:
  assumes te: "trimEnd (fixSingleTime x) = fixSingleTime x"
  shows "fixSingleTime (fixSingleTime x) = fixSingleTime x"
proof (cases "js_split match_time_sep (trim x)" rule: shapes)
  case (four a b c d)
  have ns: "\<forall>c\<in>set p. \<not> is_time_sep c" if "p \<in> set [a, b, c, d]" for p
    using that js_split_time_parts_nosep[of p "trim x"] four by simp
  have A: "\<forall>c\<in>set (padStart 2 CHR ''0'' a). \<not> is_time_sep c" by (rule padStart_nosep[OF ns]) simp
  have B: "\<forall>c\<in>set (padStart 2 CHR ''0'' b). \<not> is_time_sep c" by (rule padStart_nosep[OF ns]) simp
  have C: "\<forall>c\<in>set (padStart 2 CHR ''0'' c). \<not> is_time_sep c" by (rule padStart_nosep[OF ns]) simp
  have D: "\<forall>c\<in>set (take 3 (padEnd 3 CHR ''0'' d)). \<not> is_time_sep c" by (rule ms3_nosep[OF ns]) simp
  show ?thesis
    by (rule fix_idem_shape[OF A B C D padStart_nonempty padStart_hd[OF first_part_hd[OF four]]
          padStart_idem padStart_idem padStart_idem ms3_idem fix4[OF four] te])
next
  case (three a b c)
  have ns: "\<forall>c\<in>set p. \<not> is_time_sep c" if "p \<in> set [a, b, c]" for p
    using that js_split_time_parts_nosep[of p "trim x"] three by simp
  have A: "\<forall>c\<in>set (padStart 2 CHR ''0'' a). \<not> is_time_sep c" by (rule padStart_nosep[OF ns]) simp
  have B: "\<forall>c\<in>set (padStart 2 CHR ''0'' b). \<not> is_time_sep c" by (rule padStart_nosep[OF ns]) simp
  have C: "\<forall>c\<in>set (padStart 2 CHR ''0'' c). \<not> is_time_sep c" by (rule padStart_nosep[OF ns]) simp
  have D: "\<forall>c\<in>set (take 3 (padEnd 3 CHR ''0'' c)). \<not> is_time_sep c" by (rule ms3_nosep[OF ns]) simp
  show ?thesis
  proof (cases "gt59 (parseInt c) \<or> length c = 3")
    case True
    with fix3[OF three] have eq: "fixSingleTime x = ''00'' @ CHR '':'' # padStart 2 CHR ''0'' a @ CHR '':'' #
             padStart 2 CHR ''0'' b @ CHR '','' # take 3 (padEnd 3 CHR ''0'' c)" by simp
    have ne: "''00'' \<noteq> []" by simp
    show ?thesis
      by (rule fix_idem_shape[OF zeros_plain(1) A B D ne zeros_plain(3)
            zeros_plain(4) padStart_idem padStart_idem ms3_idem eq te])
  next
    case False
    with fix3[OF three] have eq: "fixSingleTime x = padStart 2 CHR ''0'' a @ CHR '':'' #
        padStart 2 CHR ''0'' b @ CHR '':'' # padStart 2 CHR ''0'' c @ CHR '','' # ''000''" by simp
    show ?thesis
      by (rule fix_idem_shape[OF A B C zeros_plain(2) padStart_nonempty
            padStart_hd[OF first_part_hd[OF three]]
            padStart_idem padStart_idem padStart_idem zeros_plain(5) eq te])
  qed
next
  case (two a b)
  have ns: "\<forall>c\<in>set p. \<not> is_time_sep c" if "p \<in> set [a, b]" for p
    using that js_split_time_parts_nosep[of p "trim x"] two by simp
  have A: "\<forall>c\<in>set (padStart 2 CHR ''0'' a). \<not> is_time_sep c" by (rule padStart_nosep[OF ns]) simp
  have B: "\<forall>c\<in>set (padStart 2 CHR ''0'' b). \<not> is_time_sep c" by (rule padStart_nosep[OF ns]) simp
  have ne: "''00'' \<noteq> []" by simp
  show ?thesis
    by (rule fix_idem_shape[OF zeros_plain(1) A B zeros_plain(2) ne zeros_plain(3)
          zeros_plain(4) padStart_idem padStart_idem zeros_plain(5) fix2[OF two] te])
next
  case other
  then have "fixSingleTime x = trim x" by (simp add: fixSingleTime_def)
  then show ?thesis by (simp add: fixSingleTime_trim)
qed

lemma digit_plain: "is_digit c \<Longrightarrow> \<not> is_time_sep c \<and> \<not> is_ws c"
  by (auto simp: is_digit_def is_time_sep_def is_ws_def)

lemma canonical_fixed:
  assumes "\<forall>c\<in>set [h1, h2, m1, m2, s1, s2, f1, f2, f3]. is_digit c"
  shows "fixSingleTime [h1, h2, CHR '':'', m1, m2, CHR '':'', s1, s2, CHR '','', f1, f2, f3]
           = [h1, h2, CHR '':'', m1, m2, CHR '':'', s1, s2, CHR '','', f1, f2, f3]"
proof -
  have "fixSingleTime ([h1, h2] @ CHR '':'' # [m1, m2] @ CHR '':'' # [s1, s2] @ CHR '','' # [f1, f2, f3])
        = [h1, h2] @ CHR '':'' # [m1, m2] @ CHR '':'' # [s1, s2] @ CHR '','' # [f1, f2, f3]"
    using assms digit_plain
    by (intro canon_fixed trimEnd_id) (simp_all add: padStart_def padEnd_def)
  then show ?thesis by simp
qed

lemma trimEnd_last_part:
  assumes "js_split match_time_sep (trim x) = ps @ [d]" "d \<noteq> []"
  shows "trimEnd (s @ d) = s @ d"
  using last_part_last[OF assms] assms(2) by (intro trimEnd_id) simp

lemma round_trip_lemma:
  assumes "round_trip_shape x"
  shows "timeToSeconds (fixSingleTime x) = timeToSeconds x"
proof (cases "js_split match_time_sep (trim x)" rule: shapes)
  case (four a b c d)
  with assms have len: "length d = 3" by (simp add: round_trip_shape_def)
  then have dne: "d \<noteq> []" by auto
  have ns: "\<forall>c\<in>set p. \<not> is_time_sep c" if "p \<in> set [a, b, c, d]" for p
    using that js_split_time_parts_nosep[of p "trim x"] four by simp
  have A: "\<forall>c\<in>set (padStart 2 CHR ''0'' a). \<not> is_time_sep c" by (rule padStart_nosep[OF ns]) simp
  have B: "\<forall>c\<in>set (padStart 2 CHR ''0'' b). \<not> is_time_sep c" by (rule padStart_nosep[OF ns]) simp
  have C: "\<forall>c\<in>set (padStart 2 CHR ''0'' c). \<not> is_time_sep c" by (rule padStart_nosep[OF ns]) simp
  have D: "\<forall>c\<in>set d. \<not> is_time_sep c" by (rule ns) simp
  have eq: "fixSingleTime x = padStart 2 CHR ''0'' a @ CHR '':'' # padStart 2 CHR ''0'' b @ CHR '':'' #
                       padStart 2 CHR ''0'' c @ CHR '','' # d"
    using fix4[OF four] ms3_id[OF len] by simp
  have sp: "js_split match_time_sep (trim x) = [a, b, c] @ [d]" using four by simp
  have te: "trimEnd (padStart 2 CHR ''0'' a @ CHR '':'' # padStart 2 CHR ''0'' b @ CHR '':'' #
                       padStart 2 CHR ''0'' c @ CHR '','' # d)
            = padStart 2 CHR ''0'' a @ CHR '':'' # padStart 2 CHR ''0'' b @ CHR '':'' #
                       padStart 2 CHR ''0'' c @ CHR '','' # d"
    using trimEnd_last_part[OF sp dne,
        of "padStart 2 CHR ''0'' a @ CHR '':'' # padStart 2 CHR ''0'' b @ CHR '':'' #
                       padStart 2 CHR ''0'' c @ [CHR '','']"]
    by simp
  from reparse[OF A B C D padStart_nonempty padStart_hd[OF first_part_hd[OF four]] te]
  have "timeToSeconds (fixSingleTime x) = Some (seconds_of (num a) (num b) (num c) (num d))"
    unfolding eq by (simp add: time4 num_padStart)
  with time4[OF four] show ?thesis by simp
next
  case (three a b c)
  have ns: "\<forall>c\<in>set p. \<not> is_time_sep c" if "p \<in> set [a, b, c]" for p
    using that js_split_time_parts_nosep[of p "trim x"] three by simp
  have A: "\<forall>c\<in>set (padStart 2 CHR ''0'' a). \<not> is_time_sep c" by (rule padStart_nosep[OF ns]) simp
  have B: "\<forall>c\<in>set (padStart 2 CHR ''0'' b). \<not> is_time_sep c" by (rule padStart_nosep[OF ns]) simp
  have C: "\<forall>c\<in>set (padStart 2 CHR ''0'' c). \<not> is_time_sep c" by (rule padStart_nosep[OF ns]) simp
  have D: "\<forall>c\<in>set c. \<not> is_time_sep c" by (rule ns) simp
  show ?thesis
  proof (cases "length c = 3")
    case True
    then have cne: "c \<noteq> []" by auto
    have eq: "fixSingleTime x = ''00'' @ CHR '':'' # padStart 2 CHR ''0'' a @ CHR '':'' #
             padStart 2 CHR ''0'' b @ CHR '','' # c"
      using fix3[OF three] True ms3_id[OF True] by simp
    have sp: "js_split match_time_sep (trim x) = [a, b] @ [c]" using three by simp
    have te: "trimEnd (''00'' @ CHR '':'' # padStart 2 CHR ''0'' a @ CHR '':'' #
             padStart 2 CHR ''0'' b @ CHR '','' # c)
          = ''00'' @ CHR '':'' # padStart 2 CHR ''0'' a @ CHR '':'' #
             padStart 2 CHR ''0'' b @ CHR '','' # c"
      using trimEnd_last_part[OF sp cne,
        of "''00'' @ CHR '':'' # padStart 2 CHR ''0'' a @ CHR '':'' # padStart 2 CHR ''0'' b @ [CHR '','']"]
      by simp
    have ne: "''00'' \<noteq> []" by simp
    from reparse[OF zeros_plain(1) A B D ne zeros_plain(3) te]
    have "timeToSeconds (fixSingleTime x) = Some (seconds_of 0 (num a) (num b) (num c))"
      unfolding eq by (simp add: time4 num_padStart num_zeros)
    with time3[OF three] True show ?thesis by simp
  next
    case False
    with assms three have r: "\<not> num c > 59" "\<not> gt59 (parseInt c)"
      by (simp_all add: round_trip_shape_def)
    have eq: "fixSingleTime x = padStart 2 CHR ''0'' a @ CHR '':'' #
        padStart 2 CHR ''0'' b @ CHR '':'' # padStart 2 CHR ''0'' c @ CHR '','' # ''000''"
      using fix3[OF three] False r by simp
    have te: "trimEnd (padStart 2 CHR ''0'' a @ CHR '':'' #
        padStart 2 CHR ''0'' b @ CHR '':'' # padStart 2 CHR ''0'' c @ CHR '','' # ''000'')
        = padStart 2 CHR ''0'' a @ CHR '':'' #
        padStart 2 CHR ''0'' b @ CHR '':'' # padStart 2 CHR ''0'' c @ CHR '','' # ''000''"
      using trimEnd_zeros[of "padStart 2 CHR ''0'' a @ CHR '':'' #
        padStart 2 CHR ''0'' b @ CHR '':'' # padStart 2 CHR ''0'' c @ [CHR '','']"]
      by simp
    from reparse[OF A B C zeros_plain(2) padStart_nonempty padStart_hd[OF first_part_hd[OF three]] te]
    have "timeToSeconds (fixSingleTime x) = Some (seconds_of (num a) (num b) (num c) 0)"
      unfolding eq by (simp add: time4 num_padStart num_zeros)
    with time3[OF three] False r show ?thesis by simp
  qed
next
  case (two a b)
  have ns: "\<forall>c\<in>set p. \<not> is_time_sep c" if "p \<in> set [a, b]" for p
    using that js_split_time_parts_nosep[of p "trim x"] two by simp
  have A: "\<forall>c\<in>set (padStart 2 CHR ''0'' a). \<not> is_time_sep c" by (rule padStart_nosep[OF ns]) simp
  have B: "\<forall>c\<in>set (padStart 2 CHR ''0'' b). \<not> is_time_sep c" by (rule padStart_nosep[OF ns]) simp
  have te: "trimEnd (''00'' @ CHR '':'' # padStart 2 CHR ''0'' a @ CHR '':'' #
                       padStart 2 CHR ''0'' b @ CHR '','' # ''000'')
          = ''00'' @ CHR '':'' # padStart 2 CHR ''0'' a @ CHR '':'' #
                       padStart 2 CHR ''0'' b @ CHR '','' # ''000''"
    using trimEnd_zeros[of "''00'' @ CHR '':'' # padStart 2 CHR ''0'' a @ CHR '':'' #
                       padStart 2 CHR ''0'' b @ [CHR '','']"]
    by simp
  have ne: "''00'' \<noteq> []" by simp
  from reparse[OF zeros_plain(1) A B zeros_plain(2) ne zeros_plain(3) te]
  have "timeToSeconds (fixSingleTime x) = Some (seconds_of 0 (num a) (num b) 0)"
    unfolding fix2[OF two] by (simp add: time4 num_padStart num_zeros)
  with time2[OF two] show ?thesis by simp
next
  case other
  with assms show ?thesis
    by (auto simp: round_trip_shape_def split: list.splits)
qed


text \<open>
  C4 (as amended). Canonicalising twice is canonicalising once for every string whose
  canonical form does not end in white space, that is, unless the third character of its
  millisecond component is white space. In particular a canonical timestamp, two digits
  each for hours, minutes and seconds and three for the milliseconds, is reproduced
  unchanged.
\<close>

theorem fixSingleTime_idempotent:
  "(trimEnd (fixSingleTime x) = fixSingleTime x \<longrightarrow> fixSingleTime (fixSingleTime x) = fixSingleTime x)
   \<and> ((\<forall>c\<in>set [h1, h2, m1, m2, s1, s2, f1, f2, f3]. is_digit c) \<longrightarrow>
        fixSingleTime [h1, h2, CHR '':'', m1, m2, CHR '':'', s1, s2, CHR '','', f1, f2, f3]
          = [h1, h2, CHR '':'', m1, m2, CHR '':'', s1, s2, CHR '','', f1, f2, f3])"
  using fixSingleTime_idem canonical_fixed by blast

theorem fixSingleTime_idempotent_witness:
  "fixSingleTime (fixSingleTime '' 1:2:3,4 '') = fixSingleTime '' 1:2:3,4 ''
   \<and> fixSingleTime '' 1:2:3,4 '' = ''01:02:03,400''
   \<and> fixSingleTime ''00:01:02,345'' = ''00:01:02,345''"
proof -
  have v: "fixSingleTime '' 1:2:3,4 '' = ''01:02:03,400''" by code_simp
  have h: "trimEnd (fixSingleTime '' 1:2:3,4 '') = fixSingleTime '' 1:2:3,4 ''"
    unfolding v by code_simp
  have d: "\<forall>c\<in>set [CHR ''0'', CHR ''0'', CHR ''0'', CHR ''1'', CHR ''0'', CHR ''2'',
                     CHR ''3'', CHR ''4'', CHR ''5'']. is_digit c"
    by code_simp
  from fixSingleTime_idempotent[of "'' 1:2:3,4 ''" "CHR ''0''" "CHR ''0''" "CHR ''0''" "CHR ''1''"
      "CHR ''0''" "CHR ''2''" "CHR ''3''" "CHR ''4''" "CHR ''5''"] h d v
  show ?thesis by simp
qed

theorem fixSingleTime_idempotent_counterexample:
  "fixSingleTime ''1:2:3,12 4'' = ''01:02:03,12 ''
   \<and> fixSingleTime (fixSingleTime ''1:2:3,12 4'') = ''01:02:03,120''"
  by code_simp

text \<open>
  C3 (as amended). Parsing the canonical form gives what parsing the original gives for
  every timestamp of 2 components, of 4 components whose fourth is 3 characters wide, and
  of 3 components whose third is 3 characters wide or is taken for seconds by both
  functions (its value read in base 10 does not exceed 59, and neither does its value as
  \<open>parseInt\<close> without a radix reads it).
\<close>

theorem round_trip:
  assumes "round_trip_shape x"
  shows "timeToSeconds (fixSingleTime x) = timeToSeconds x"
  using assms by (rule round_trip_lemma)

theorem round_trip_witness:
  "timeToSeconds (fixSingleTime ''1:2,500'') = timeToSeconds ''1:2,500''
   \<and> timeToSeconds ''1:2,500'' = Some (125 / 2)"
proof -
  have h: "round_trip_shape ''1:2,500''" by code_simp
  have v: "timeToSeconds ''1:2,500'' = Some (125 / 2)" by code_simp
  from round_trip[OF h] v show ?thesis by simp
qed

theorem round_trip_counterexample:
  "timeToSeconds ''00:00:01,5'' = Some (201 / 200)
   \<and> timeToSeconds (fixSingleTime ''00:00:01,5'') = Some (3 / 2)
   \<and> timeToSeconds ''1:2:0x41'' = Some 3720
   \<and> timeToSeconds (fixSingleTime ''1:2:0x41'') = Some 62"
  by code_simp

subsection \<open>Timestamp parser\<close>

lemma timeToSeconds_by_shape:
  "timeToSeconds x =
     (case js_split match_time_sep (trim x) of
        [h, m, s, ms] \<Rightarrow>
          Some (of_int (num h) * 3600 + of_int (num m) * 60 + of_int (num s) + of_int (num ms) / 1000)
      | [a, b, c] \<Rightarrow>
          if num c > 59 \<or> length c = 3
          then Some (of_int (num a) * 60 + of_int (num b) + of_int (num c) / 1000)
          else Some (of_int (num a) * 3600 + of_int (num b) * 60 + of_int (num c))
      | [m, s] \<Rightarrow> Some (of_int (num m) * 60 + of_int (num s))
      | _ \<Rightarrow> None)"
proof -
  define parts where "parts = js_split match_time_sep (trim x)"
  show ?thesis
  proof (cases parts rule: shapes)
    case four
    then show ?thesis
      unfolding timeToSeconds_def parts_def[symmetric] Let_def num_def seconds_of_def
      by simp
  next
    case three
    then show ?thesis
      unfolding timeToSeconds_def parts_def[symmetric] Let_def num_def seconds_of_def
      by simp
  next
    case two
    then show ?thesis
      unfolding timeToSeconds_def parts_def[symmetric] Let_def num_def seconds_of_def
      by simp
  next
    case other
    then have "(case parts of
        [h, m, s, ms] \<Rightarrow>
          Some (of_int (num h) * 3600 + of_int (num m) * 60 + of_int (num s) + of_int (num ms) / 1000)
      | [a, b, c] \<Rightarrow>
          if num c > 59 \<or> length c = 3
          then Some (of_int (num a) * 60 + of_int (num b) + of_int (num c) / 1000)
          else Some (of_int (num a) * 3600 + of_int (num b) * 60 + of_int (num c))
      | [m, s] \<Rightarrow> Some (of_int (num m) * 60 + of_int (num s))
      | _ \<Rightarrow> None) = (None :: rat option)"
      by (auto split: list.splits)
    with other show ?thesis
      unfolding timeToSeconds_def parts_def[symmetric] Let_def by simp
  qed
qed

text \<open>
  C2 (as amended). \<open>timeToSeconds\<close> splits the timestamp, the white space around it
  removed, on colon, comma and full stop. 4 components are hours, minutes, seconds and
  milliseconds; 3 components are minutes, seconds and milliseconds exactly when the third
  exceeds 59 or is 3 characters wide, digits or not, and hours, minutes and seconds
  otherwise; 2 components are minutes and seconds; any other count gives no result; a
  component that does not parse counts as 0. The result is
  \<open>hours * 3600 + minutes * 60 + seconds + milliseconds / 1000\<close>; \<open>01:02:03,004\<close> gives
  3723.004 and \<open>01:02,500\<close> gives 62.5.
\<close>

theorem timeToSeconds_reading:
  "timeToSeconds x =
     (case js_split match_time_sep (trim x) of
        [h, m, s, ms] \<Rightarrow>
          Some (of_int (num h) * 3600 + of_int (num m) * 60 + of_int (num s) + of_int (num ms) / 1000)
      | [a, b, c] \<Rightarrow>
          if num c > 59 \<or> length c = 3
          then Some (of_int (num a) * 60 + of_int (num b) + of_int (num c) / 1000)
          else Some (of_int (num a) * 3600 + of_int (num b) * 60 + of_int (num c))
      | [m, s] \<Rightarrow> Some (of_int (num m) * 60 + of_int (num s))
      | _ \<Rightarrow> None)
   \<and> timeToSeconds ''01:02:03,004'' = Some (3723004 / 1000)
   \<and> timeToSeconds ''01:02,500'' = Some (125 / 2)"
proof -
  have a: "timeToSeconds ''01:02:03,004'' = Some (3723004 / 1000)"
    by (simp add: timeToSeconds_def str_defs)
  have b: "timeToSeconds ''01:02,500'' = Some (125 / 2)"
    by (simp add: timeToSeconds_def str_defs)
  show ?thesis by (intro conjI timeToSeconds_by_shape a b)
qed

theorem timeToSeconds_reading_witness:
  "timeToSeconds '' 0:07:30 '' = Some 450 \<and> timeToSeconds ''7:30:abc'' = Some 450"
proof -
  have s1: "js_split match_time_sep (trim '' 0:07:30 '') = [''0'', ''07'', ''30'']" by code_simp
  have s2: "js_split match_time_sep (trim ''7:30:abc'') = [''7'', ''30'', ''abc'']" by code_simp
  have n: "num ''0'' = 0" "num ''07'' = 7" "num ''30'' = 30" "num ''7'' = 7" "num ''abc'' = 0"
    by code_simp+
  from timeToSeconds_reading[of "'' 0:07:30 ''"] timeToSeconds_reading[of "''7:30:abc''"]
  show ?thesis unfolding s1 s2 by (simp add: n)
qed

theorem timeToSeconds_width_counterexample:
  "timeToSeconds ''1:2:abc'' = Some 62 \<and> spec_timeToSeconds ''1:2:abc'' = Some 3720"
  by code_simp


subsection \<open>Frame generation\<close>

lemma digit_value_char_of: "d < 10 \<Longrightarrow> digit_value (char_of (48 + d)) = d"
  by (simp add: digit_value_def)

lemma dec_value_snoc: "dec_value (s @ [c]) = dec_value s * 10 + digit_value c"
  by (simp add: dec_value_def)

lemma dec_value_toString: "dec_value (toString n) = n"
proof (induction n rule: toString.induct)
  case (1 n)
  show ?case
  proof (cases "n < 10")
    case True
    then show ?thesis
      by (subst toString.simps) (simp add: dec_value_def digit_value_char_of)
  next
    case False
    then have "dec_value (toString (n div 10)) = n div 10" using 1 by simp
    moreover have "n mod 10 < 10" by simp
    ultimately show ?thesis using False
      by (subst toString.simps) (simp add: dec_value_snoc digit_value_char_of)
  qed
qed

lemma dec_value_zeros: "dec_value (replicate k CHR ''0'' @ s) = dec_value s"
proof -
  have "foldl (\<lambda>a c. a * 10 + digit_value c) 0 (replicate k CHR ''0'') = 0"
    by (induction k) (simp_all add: digit_value_def)
  then show ?thesis by (simp add: dec_value_def)
qed

lemma frameName_inj: "frameName i = frameName j \<Longrightarrow> i = j"
proof -
  assume "frameName i = frameName j"
  then have "padStart 5 CHR ''0'' (toString i) = padStart 5 CHR ''0'' (toString j)"
    by (simp add: frameName_def)
  then have "dec_value (padStart 5 CHR ''0'' (toString i)) = dec_value (padStart 5 CHR ''0'' (toString j))"
    by simp
  then show "i = j"
    by (simp add: padStart_def dec_value_zeros dec_value_toString)
qed


lemma frameStep_ok:
  assumes "\<not> writeFails E (frameName i)"
  shows "frameStep E subs i st =
     Inr (if captionAt subs (of_nat i / 4) \<noteq> lastSubtitle st \<or> cachedFrameData st = None
          then st\<lparr>cachedFrameData := Some (fst (renderFrame E (captionAt subs (of_nat i / 4)) (document st))),
                  lastSubtitle := captionAt subs (of_nat i / 4),
                  document := snd (renderFrame E (captionAt subs (of_nat i / 4)) (document st)),
                  files := (files st)(frameName i \<mapsto>
                      fst (renderFrame E (captionAt subs (of_nat i / 4)) (document st)))\<rparr>
          else st\<lparr>files := (files st)(frameName i \<mapsto>
                      (case cachedFrameData st of None \<Rightarrow> [] | Some d \<Rightarrow> d))\<rparr>)"
  using assms by (simp add: frameStep_def writeFile_def Let_def split_def)

lemma frameLoop_append:
  "frameLoop E subs (xs @ ys) st =
     (case frameLoop E subs xs st of Inl e \<Rightarrow> Inl e | Inr st' \<Rightarrow> frameLoop E subs ys st')"
  by (induction xs arbitrary: st) (simp_all split: sum.splits)

lemma captions_Suc:
  "captions subs [0..<Suc n] = captions subs [0..<n] @ [caption_of_frame subs n]"
  by (simp add: captions_def caption_of_frame_def)

lemma compose_all_snoc:
  "compose_all E d (cs @ [c]) = snd (renderFrame E c (compose_all E d cs))"
  by (simp add: compose_all_def)

lemma page_before_Suc:
  "page_before E subs (Suc n) =
     (if 0 < n \<and> caption_of_frame subs n = caption_of_frame subs (n - 1)
      then page_before E subs n
      else snd (renderFrame E (caption_of_frame subs n) (page_before E subs n)))"
proof (cases n)
  case 0
  then show ?thesis
    by (simp add: page_before_def captions_def compose_all_def caption_of_frame_def)
next
  case (Suc m)
  define ys where "ys = captions subs [0..<m]"
  define x where "x = caption_of_frame subs m"
  define y where "y = caption_of_frame subs n"
  have cn: "captions subs [0..<n] = ys @ [x]"
    unfolding Suc ys_def x_def by (rule captions_Suc)
  have cs: "captions subs [0..<Suc n] = ys @ [x, y]"
    using captions_Suc[of subs n] cn by (simp add: y_def)
  have two: "remdups_adj (ys @ [x, y]) = remdups_adj (ys @ [x]) @ (if x = y then [] else [y])"
    by (rule remdups_adj_append_two)
  have prev: "caption_of_frame subs (n - 1) = x" by (simp add: Suc x_def)
  show ?thesis
  proof (cases "x = y")
    case True
    then have "page_before E subs (Suc n) = page_before E subs n"
      unfolding page_before_def cs cn two by simp
    with True Suc prev show ?thesis by (simp add: y_def)
  next
    case False
    then have "page_before E subs (Suc n) = snd (renderFrame E y (page_before E subs n))"
      unfolding page_before_def cs cn two by (simp add: compose_all_snoc)
    with False prev show ?thesis by (simp add: y_def)
  qed
qed

lemma frameLoop_upto:
  assumes "\<forall>i<n. \<not> writeFails E (frameName i)"
  shows "\<exists>st. frameLoop E subs [0..<n] (initial_frame_state E fs0) = Inr st
     \<and> document st = page_before E subs n
     \<and> (n = 0 \<longrightarrow> cachedFrameData st = None)
     \<and> (0 < n \<longrightarrow> lastSubtitle st = caption_of_frame subs (n - 1)
                  \<and> cachedFrameData st \<noteq> None
                  \<and> cachedFrameData st = files st (frameName (n - 1)))
     \<and> (\<forall>i<n. files st (frameName i) =
           (if 0 < i \<and> caption_of_frame subs i = caption_of_frame subs (i - 1)
            then files st (frameName (i - 1))
            else Some (fst (renderFrame E (caption_of_frame subs i) (page_before E subs i)))))
     \<and> (\<forall>name. name \<notin> frameName ` {..<n} \<longrightarrow> files st name = fs0 name)"
  using assms
proof (induction n)
  case 0
  show ?case
    by (simp add: initial_frame_state_def page_before_def captions_def compose_all_def)
next
  case (Suc n)
  let ?c = "caption_of_frame subs n"
  from Suc.prems have w: "\<not> writeFails E (frameName n)" and "\<forall>i<n. \<not> writeFails E (frameName i)"
    by simp_all
  from Suc.IH[OF this(2)] obtain st where
    run: "frameLoop E subs [0..<n] (initial_frame_state E fs0) = Inr st" and
    doc: "document st = page_before E subs n" and
    c0: "n = 0 \<longrightarrow> cachedFrameData st = None" and
    cn: "0 < n \<longrightarrow> lastSubtitle st = caption_of_frame subs (n - 1)
                  \<and> cachedFrameData st \<noteq> None
                  \<and> cachedFrameData st = files st (frameName (n - 1))" and
    fl: "\<forall>i<n. files st (frameName i) =
           (if 0 < i \<and> caption_of_frame subs i = caption_of_frame subs (i - 1)
            then files st (frameName (i - 1))
            else Some (fst (renderFrame E (caption_of_frame subs i) (page_before E subs i))))" and
    keep: "\<forall>name. name \<notin> frameName ` {..<n} \<longrightarrow> files st name = fs0 name"
    by blast
  define reuse where "reuse \<longleftrightarrow> 0 < n \<and> ?c = caption_of_frame subs (n - 1)"
  define data where "data = (if reuse then (case cachedFrameData st of None \<Rightarrow> [] | Some d \<Rightarrow> d)
                             else fst (renderFrame E ?c (document st)))"
  define st' where "st' = (if reuse then st\<lparr>files := (files st)(frameName n \<mapsto> data)\<rparr>
     else st\<lparr>cachedFrameData := Some data, lastSubtitle := ?c,
              document := snd (renderFrame E ?c (document st)),
              files := (files st)(frameName n \<mapsto> data)\<rparr>)"
  have cond: "(?c \<noteq> lastSubtitle st \<or> cachedFrameData st = None) \<longleftrightarrow> \<not> reuse"
    using c0 cn by (cases "n = 0") (auto simp: reuse_def)
  have step: "frameStep E subs n st = Inr st'"
    unfolding frameStep_ok[OF w] caption_of_frame_def[symmetric] cond st'_def data_def
    by (simp add: caption_of_frame_def)
  have run': "frameLoop E subs [0..<Suc n] (initial_frame_state E fs0) = Inr st'"
    using run step by (simp add: frameLoop_append)
  have files': "files st' = (files st)(frameName n \<mapsto> data)"
    by (simp add: st'_def)
  have other: "files st' (frameName i) = files st (frameName i)" if "i < n" for i
  proof -
    from that have "frameName i \<noteq> frameName n" using frameName_inj[of i n] by auto
    then show ?thesis by (simp add: files')
  qed
  have doc': "document st' = page_before E subs (Suc n)"
    unfolding page_before_Suc using doc by (simp add: st'_def reuse_def)
  have cache': "lastSubtitle st' = ?c \<and> cachedFrameData st' \<noteq> None
                  \<and> cachedFrameData st' = files st' (frameName n)"
  proof (cases reuse)
    case True
    then have "0 < n" "?c = caption_of_frame subs (n - 1)" by (simp_all add: reuse_def)
    with cn have ne: "cachedFrameData st \<noteq> None"
      and ls0: "lastSubtitle st = caption_of_frame subs (n - 1)" by blast+
    from ls0 \<open>?c = caption_of_frame subs (n - 1)\<close> have ls: "lastSubtitle st = ?c" by simp
    from ne obtain d where d1: "cachedFrameData st = Some d" by (cases "cachedFrameData st") auto
    note d = d1 ls
    with True show ?thesis by (simp add: st'_def data_def)
  next
    case False
    then show ?thesis by (simp add: st'_def)
  qed
  have new: "files st' (frameName n) =
           (if 0 < n \<and> ?c = caption_of_frame subs (n - 1)
            then files st' (frameName (n - 1))
            else Some (fst (renderFrame E ?c (page_before E subs n))))"
  proof (cases reuse)
    case True
    then have n: "0 < n" "?c = caption_of_frame subs (n - 1)" by (simp_all add: reuse_def)
    from cn n(1) have ne: "cachedFrameData st \<noteq> None"
      and eq: "cachedFrameData st = files st (frameName (n - 1))" by blast+
    from ne obtain d where d1: "cachedFrameData st = Some d" by (cases "cachedFrameData st") auto
    with eq have d2: "files st (frameName (n - 1)) = Some d" by simp
    note d = d1 d2
    have "files st' (frameName (n - 1)) = files st (frameName (n - 1))"
      using other[of "n - 1"] n(1) by simp
    with True n d show ?thesis by (simp add: files' data_def)
  next
    case False
    then show ?thesis using doc by (auto simp: files' data_def reuse_def)
  qed
  have all: "\<forall>i<Suc n. files st' (frameName i) =
           (if 0 < i \<and> caption_of_frame subs i = caption_of_frame subs (i - 1)
            then files st' (frameName (i - 1))
            else Some (fst (renderFrame E (caption_of_frame subs i) (page_before E subs i))))"
  proof (intro allI impI)
    fix i assume "i < Suc n"
    show "files st' (frameName i) =
           (if 0 < i \<and> caption_of_frame subs i = caption_of_frame subs (i - 1)
            then files st' (frameName (i - 1))
            else Some (fst (renderFrame E (caption_of_frame subs i) (page_before E subs i))))"
    proof (cases "i = n")
      case True
      then show ?thesis using new by simp
    next
      case False
      with \<open>i < Suc n\<close> have lt: "i < n" by simp
      then have "i - 1 < n" by simp
      from other[OF lt] other[OF this] fl lt show ?thesis by simp
    qed
  qed
  have keep': "\<forall>name. name \<notin> frameName ` {..<Suc n} \<longrightarrow> files st' name = fs0 name"
    using keep by (auto simp: files' lessThan_Suc)
  have c0': "Suc n = 0 \<longrightarrow> cachedFrameData st' = None" by simp
  have cn': "0 < Suc n \<longrightarrow> lastSubtitle st' = caption_of_frame subs (Suc n - 1)
                  \<and> cachedFrameData st' \<noteq> None
                  \<and> cachedFrameData st' = files st' (frameName (Suc n - 1))"
    using cache' unfolding diff_Suc_1 by blast
  show ?case
    by (intro exI[of _ st'] conjI run' doc' c0' cn' all keep')
qed

lemma frame_files_page_blind:
  assumes pb: "page_blind E"
    and fl: "\<forall>i<n. f (frameName i) =
           (if 0 < i \<and> caption_of_frame subs i = caption_of_frame subs (i - 1)
            then f (frameName (i - 1))
            else Some (fst (renderFrame E (caption_of_frame subs i) (page_before E subs i))))"
  shows "i < n \<Longrightarrow> f (frameName i) = Some (frame_bytes E (caption_of_frame subs i))"
proof (induction i)
  case 0
  with fl pb show ?case by (simp add: page_blind_def)
next
  case (Suc i)
  then have IH: "f (frameName i) = Some (frame_bytes E (caption_of_frame subs i))" by simp
  from fl Suc.prems have "f (frameName (Suc i)) =
           (if caption_of_frame subs (Suc i) = caption_of_frame subs i
            then f (frameName i)
            else Some (fst (renderFrame E (caption_of_frame subs (Suc i)) (page_before E subs (Suc i)))))"
    by simp
  with IH pb show ?case by (auto simp: page_blind_def)
qed

text \<open>
  C6. When no frame write throws, the frame loop ends normally, and the page it leaves is
  the page of the start after one call of the compositor for each maximal run of frames
  with the same caption, in order (the captions of the frames with every run of equal
  neighbours collapsed to one). The first frame of a run holds the bytes that this one
  call returned, and every later frame of the run holds the bytes of the frame before it:
  a frame whose caption is that of the frame before it is written from the cache, with no
  second composition. So, when the bytes of a frame depend on the caption only, the file
  of every frame holds what the compositor gives for the caption of that frame.
\<close>

theorem frame_cache_once_per_run:
  assumes "\<forall>i<n. \<not> writeFails E (frameName i)"
  shows "\<exists>st. frameLoop E subs [0..<n] (initial_frame_state E fs0) = Inr st
     \<and> document st = compose_all E (page E) (remdups_adj (captions subs [0..<n]))
     \<and> (\<forall>i<n. files st (frameName i) =
           (if 0 < i \<and> caption_of_frame subs i = caption_of_frame subs (i - 1)
            then files st (frameName (i - 1))
            else Some (fst (renderFrame E (caption_of_frame subs i) (page_before E subs i)))))
     \<and> (page_blind E \<longrightarrow>
          (\<forall>i<n. files st (frameName i) = Some (frame_bytes E (captionAt subs (of_nat i / 4)))))"
proof -
  from frameLoop_upto[OF assms, of subs fs0] obtain st where
    run: "frameLoop E subs [0..<n] (initial_frame_state E fs0) = Inr st" and
    doc: "document st = page_before E subs n" and
    fl: "\<forall>i<n. files st (frameName i) =
           (if 0 < i \<and> caption_of_frame subs i = caption_of_frame subs (i - 1)
            then files st (frameName (i - 1))
            else Some (fst (renderFrame E (caption_of_frame subs i) (page_before E subs i))))"
    by blast
  have "\<forall>i<n. files st (frameName i) = Some (frame_bytes E (captionAt subs (of_nat i / 4)))"
    if pb: "page_blind E"
    using frame_files_page_blind[OF pb fl] by (simp add: caption_of_frame_def)
  with run doc fl show ?thesis unfolding page_before_def by blast
qed

theorem frame_cache_once_per_run_witness:
  "\<exists>st. frameLoop (sample_env\<lparr>renderFrame := (\<lambda>subtitle d. (d # map of_char subtitle, Suc d))\<rparr>)
          [\<lparr>ctext = ''A'', startSec = 0, endSec = 1\<rparr>, \<lparr>ctext = ''A'', startSec = 1, endSec = 2\<rparr>,
           \<lparr>ctext = ''B'', startSec = 2, endSec = 5 / 2\<rparr>]
          [0..<12]
          (initial_frame_state (sample_env\<lparr>renderFrame := (\<lambda>subtitle d. (d # map of_char subtitle, Suc d))\<rparr>)
             Map.empty) = Inr st
     \<and> document st = 3
     \<and> files st (frameName 0) = Some [0, 65]
     \<and> files st (frameName 1) = Some [0, 65]
     \<and> files st (frameName 8) = Some [1, 66]"
proof -
  let ?E = "sample_env\<lparr>renderFrame := (\<lambda>subtitle d. (d # map of_char subtitle, Suc d))\<rparr>"
  let ?subs = "[\<lparr>ctext = ''A'', startSec = 0, endSec = 1\<rparr>, \<lparr>ctext = ''A'', startSec = 1, endSec = 2\<rparr>,
           \<lparr>ctext = ''B'', startSec = 2, endSec = 5 / 2\<rparr>]"
  have h: "\<forall>i<12. \<not> writeFails ?E (frameName i)" by (simp add: sample_env_def)
  from frame_cache_once_per_run[OF h, of ?subs Map.empty] obtain st where
    run: "frameLoop ?E ?subs [0..<12] (initial_frame_state ?E Map.empty) = Inr st" and
    doc: "document st = compose_all ?E (page ?E) (remdups_adj (captions ?subs [0..<12]))" and
    fl: "\<forall>i<12. files st (frameName i) =
           (if 0 < i \<and> caption_of_frame ?subs i = caption_of_frame ?subs (i - 1)
            then files st (frameName (i - 1))
            else Some (fst (renderFrame ?E (caption_of_frame ?subs i) (page_before ?E ?subs i))))"
    by blast
  have r: "compose_all ?E (page ?E) (remdups_adj (captions ?subs [0..<12])) = 3"
    by code_simp
  have f0: "fst (renderFrame ?E (caption_of_frame ?subs 0) (page_before ?E ?subs 0)) = [0, 65]"
    by code_simp
  have f8: "fst (renderFrame ?E (caption_of_frame ?subs 8) (page_before ?E ?subs 8)) = [1, 66]"
    by code_simp
  have c1: "caption_of_frame ?subs 1 = caption_of_frame ?subs (1 - 1)" by code_simp
  have c8: "caption_of_frame ?subs 8 \<noteq> caption_of_frame ?subs (8 - 1)" by code_simp
  have a0: "files st (frameName 0) = Some [0, 65]" using fl f0 by simp
  have a1: "files st (frameName 1) = Some [0, 65]"
    using fl[rule_format, of 1] c1 a0 by simp
  have a8: "files st (frameName 8) = Some [1, 66]"
    using fl[rule_format, of 8] c8 f8 by simp
  show ?thesis using run doc r a0 a1 a8 by auto
qed


subsection \<open>Cleanup\<close>

lemma deleteFiles_exact:
  "deleteFiles E names fs =
     (\<lambda>name. if name \<in> set (takeWhile (\<lambda>x. \<not> deleteFails E x) names) then None else fs name)"
proof (induction names arbitrary: fs)
  case Nil
  then show ?case by simp
next
  case (Cons x names)
  show ?case
  proof (cases "deleteFails E x")
    case True
    then show ?thesis by (simp add: deleteFile_def)
  next
    case False
    then show ?thesis
      by (auto simp: deleteFile_def Cons.IH[of "fs(x := None)"] fun_eq_iff)
  qed
qed

lemma frameStep_throws:
  "writeFails E (frameName i) \<Longrightarrow> frameStep E subs i st = Inl (WriteFailed (frameName i))"
  by (simp add: frameStep_def writeFile_def Let_def)

lemma frameStep_writes:
  "\<not> writeFails E (frameName i) \<Longrightarrow>
   \<exists>st1 data. frameStep E subs i st = Inr st1 \<and> files st1 = (files st)(frameName i \<mapsto> data)"
  by (auto simp: frameStep_ok)

lemma frameLoop_storage:
  "(\<forall>st'. frameLoop E subs is st = Inr st' \<longrightarrow>
      (\<forall>i\<in>set is. \<not> writeFails E (frameName i))
      \<and> dom (files st') = dom (files st) \<union> frameName ` set is
      \<and> (\<forall>name. name \<notin> frameName ` set is \<longrightarrow> files st' name = files st name))
   \<and> (\<forall>e fs. frameLoop E subs is st = Inl (e, fs) \<longrightarrow>
      (\<exists>i\<in>set is. writeFails E (frameName i))
      \<and> dom fs = dom (files st) \<union> frameName ` set (takeWhile (\<lambda>i. \<not> writeFails E (frameName i)) is)
      \<and> (\<forall>name. name \<notin> frameName ` set (takeWhile (\<lambda>i. \<not> writeFails E (frameName i)) is)
            \<longrightarrow> fs name = files st name))"
proof (induction "is" arbitrary: st)
  case Nil
  then show ?case by simp
next
  case (Cons i "is")
  show ?case
  proof (cases "writeFails E (frameName i)")
    case True
    then show ?thesis by (simp add: frameStep_throws)
  next
    case False
    from frameStep_writes[OF False, of subs st] obtain st1 data where
      st1: "frameStep E subs i st = Inr st1" and f1: "files st1 = (files st)(frameName i \<mapsto> data)"
      by blast
    have eq: "frameLoop E subs (i # is) st = frameLoop E subs is st1" using st1 by simp
    have d1: "dom (files st1) = insert (frameName i) (dom (files st))" using f1 by simp
    have k1: "name \<noteq> frameName i \<Longrightarrow> files st1 name = files st name" for name using f1 by simp
    show ?thesis
      unfolding eq using Cons.IH[of st1] False d1 k1 by (auto simp: image_iff)
  qed
qed

lemma frameLoop_total:
  "(\<forall>i\<in>set is. \<not> writeFails E (frameName i)) \<longleftrightarrow> (\<exists>st'. frameLoop E subs is st = Inr st')"
proof (cases "frameLoop E subs is st")
  case (Inl a)
  then show ?thesis using frameLoop_storage[of E subs "is" st] by (cases a) auto
next
  case (Inr b)
  then show ?thesis using frameLoop_storage[of E subs "is" st] by auto
qed

lemma frameStep_deleteFails: "frameStep (E\<lparr>deleteFails := d\<rparr>) subs i st = frameStep E subs i st"
  by (simp add: frameStep_def writeFile_def Let_def)

lemma frameLoop_deleteFails: "frameLoop (E\<lparr>deleteFails := d\<rparr>) subs is st = frameLoop E subs is st"
  by (induction "is" arbitrary: st) (simp_all add: frameStep_deleteFails split: sum.splits)

lemma createVideo_result_deleteFails:
  "fst (createVideo (E\<lparr>deleteFails := d\<rparr>) srt fs0) = fst (createVideo E srt fs0)"
  by (simp add: createVideo_def frameLoop_deleteFails writeFile_def exec_def totalFramesOf_def Let_def
           split: sum.splits prod.splits)

lemma takeWhile_frames:
  "takeWhile (\<lambda>name. \<not> writeFails E name) (map frameName is)
     = map frameName (takeWhile (\<lambda>i. \<not> writeFails E (frameName i)) is)"
  by (simp add: takeWhile_map comp_def)

lemma createVideo_storage:
  "(\<forall>name. name \<notin> set (artifacts E) \<longrightarrow> snd (createVideo E srt fs0) name = fs0 name)
   \<and> (\<forall>data. fst (createVideo E srt fs0) = Inr data \<longrightarrow>
         dom (snd (createVideo E srt fs0)) = (dom fs0 \<union> set (artifacts E)) - set (deleted_by_cleanup E))
   \<and> (\<forall>e. fst (createVideo E srt fs0) = Inl e \<longrightarrow>
         dom (snd (createVideo E srt fs0)) = dom fs0 \<union> set (written_before_throw E))"
proof (cases "loaded E \<and> imageDecodes E")
  case False
  then have "createVideo E srt fs0 = (Inl NotLoaded, fs0) \<or> createVideo E srt fs0 = (Inl ImageDecodeError, fs0)"
    by (auto simp: createVideo_def Let_def)
  with False show ?thesis by (auto simp: written_before_throw_def)
next
  case True
  define n where "n = totalFramesOf E"
  define audio where "audio = ''audio.'' @ audioExt (audioFileName E)"
  define frames where "frames = map frameName [0..<n]"
  define st0 where "st0 = \<lparr>lastSubtitle = [], cachedFrameData = None, files = fs0, document = page E\<rparr>"
  define loop where "loop = frameLoop E (parseSrtToSubtitles srt) [0..<n] st0"
  have A: "artifacts E = frames @ [audio, ''output.mp4'']"
    by (simp add: artifacts_def frames_def audio_def n_def)
  have W: "written_before_throw E = takeWhile (\<lambda>name. \<not> writeFails E name) (frames @ [audio])"
    using True by (simp add: written_before_throw_def frames_def audio_def n_def)
  have D: "deleted_by_cleanup E = takeWhile (\<lambda>name. \<not> deleteFails E name) (artifacts E)"
    by (simp add: deleted_by_cleanup_def artifacts_def)
  have cv: "createVideo E srt fs0 =
     (case loop of
        Inl (e, fs) \<Rightarrow> (Inl e, fs)
      | Inr st \<Rightarrow>
          (case writeFile E audio (audioData E) (files st) of
             Inl e \<Rightarrow> (Inl e, files st)
           | Inr fs1 \<Rightarrow>
               (case exec E ''output.mp4'' fs1 of
                  Inl e \<Rightarrow> (Inl e, fs1)
                | Inr fs2 \<Rightarrow>
                    (case readFile ''output.mp4'' fs2 of
                       Inl e \<Rightarrow> (Inl e, fs2)
                     | Inr data \<Rightarrow> (Inr data, deleteFiles E (artifacts E) fs2)))))"
    using True
    by (auto simp: createVideo_def Let_def loop_def st0_def n_def audio_def artifacts_def
             split: sum.splits prod.splits)
  note fl = frameLoop_storage[of E "parseSrtToSubtitles srt" "[0..<n]" st0, folded loop_def]
  show ?thesis
  proof (cases loop)
    case (Inl a)
    obtain e fs where a: "a = (e, fs)" by (cases a)
    define S where "S = frameName ` set (takeWhile (\<lambda>i. \<not> writeFails E (frameName i)) [0..<n])"
    from fl Inl a have bad: "\<exists>i\<in>set [0..<n]. writeFails E (frameName i)"
      and dm: "dom fs = dom fs0 \<union> S"
      and keep: "\<forall>name. name \<notin> S \<longrightarrow> fs name = fs0 name"
      by (simp_all add: st0_def S_def)
    from bad have "\<exists>x\<in>set frames. \<not> \<not> writeFails E x" by (auto simp: frames_def)
    then obtain x where "x \<in> set frames" "\<not> \<not> writeFails E x" by blast
    then have "takeWhile (\<lambda>name. \<not> writeFails E name) (frames @ [audio])
                = takeWhile (\<lambda>name. \<not> writeFails E name) frames"
      by (rule takeWhile_append1)
    then have W': "set (written_before_throw E) = S"
      unfolding W S_def by (simp add: frames_def takeWhile_frames)
    have "S \<subseteq> set frames"
      unfolding S_def frames_def using set_takeWhileD by fastforce
    then have sub: "S \<subseteq> set (artifacts E)" unfolding A by auto
    have r: "createVideo E srt fs0 = (Inl e, fs)" unfolding cv Inl a by simp
    have c1: "\<forall>name. name \<notin> set (artifacts E) \<longrightarrow> fs name = fs0 name"
      using keep sub by blast
    have c3: "dom fs = dom fs0 \<union> set (written_before_throw E)"
      using dm W' by simp
    show ?thesis unfolding r using c1 c3 by simp
  next
    case (Inr st)
    from fl Inr have good: "\<forall>i\<in>set [0..<n]. \<not> writeFails E (frameName i)"
      and dm: "dom (files st) = dom fs0 \<union> set frames"
      and keep: "\<forall>name. name \<notin> set frames \<longrightarrow> files st name = fs0 name"
      by (simp_all add: st0_def frames_def)
    from good have "\<And>x. x \<in> set frames \<Longrightarrow> \<not> writeFails E x" by (auto simp: frames_def)
    then have W': "written_before_throw E = frames @ takeWhile (\<lambda>name. \<not> writeFails E name) [audio]"
      unfolding W by (rule takeWhile_append2)
    show ?thesis
    proof (cases "writeFails E audio")
      case True
      then have r: "createVideo E srt fs0 = (Inl (WriteFailed audio), files st)"
        unfolding cv Inr by (simp add: writeFile_def)
      show ?thesis unfolding r using dm keep W' True A by auto
    next
      case wa: False
      show ?thesis
      proof (cases "execFails E")
        case True
        then have r: "createVideo E srt fs0 = (Inl ExecFailed, (files st)(audio \<mapsto> audioData E))"
          unfolding cv Inr using wa by (simp add: writeFile_def exec_def)
        show ?thesis unfolding r using dm keep W' wa A by auto
      next
        case False
        then have r: "createVideo E srt fs0 =
            (Inr (encodedVideo E),
             deleteFiles E (artifacts E)
               ((files st)(audio \<mapsto> audioData E, ''output.mp4'' \<mapsto> encodedVideo E)))"
          unfolding cv Inr using wa by (simp add: writeFile_def exec_def readFile_def)
        show ?thesis
          unfolding r deleteFiles_exact D using dm keep A
          by (auto simp: dom_def dest: set_takeWhileD split: if_splits)
      qed
    qed
  qed
qed

lemma no_failing_deletion:
  "\<forall>name\<in>set (artifacts E). \<not> deleteFails E name \<Longrightarrow> deleted_by_cleanup E = artifacts E"
  by (simp add: deleted_by_cleanup_def artifacts_def takeWhile_eq_all_conv)

text \<open>
  C1 (as amended). Whether a deletion throws has no effect on what \<open>createVideo\<close>
  returns, and a run changes no file other than its artifacts. When it returns normally,
  the cleanup has deleted the artifacts in front of the first deletion that throws, in the
  order frames, audio, output, and nothing else: that artifact and those after it stay;
  when no deletion throws, no artifact stays. When it throws, there is no cleanup: the
  working storage holds what it held before and every artifact the run wrote until then.
\<close>

theorem cleanup_best_effort:
  "fst (createVideo (E\<lparr>deleteFails := d\<rparr>) srt fs0) = fst (createVideo E srt fs0)
   \<and> (\<forall>name. name \<notin> set (artifacts E) \<longrightarrow> snd (createVideo E srt fs0) name = fs0 name)
   \<and> (fst (createVideo E srt fs0) = Inr data \<longrightarrow>
        dom (snd (createVideo E srt fs0)) = (dom fs0 \<union> set (artifacts E)) - set (deleted_by_cleanup E))
   \<and> (fst (createVideo E srt fs0) = Inr data \<and> (\<forall>name\<in>set (artifacts E). \<not> deleteFails E name) \<longrightarrow>
        (\<forall>name\<in>set (artifacts E). snd (createVideo E srt fs0) name = None))
   \<and> (fst (createVideo E srt fs0) = Inl e \<longrightarrow>
        dom (snd (createVideo E srt fs0)) = dom fs0 \<union> set (written_before_throw E))"
proof -
  note st = createVideo_storage[of E srt fs0]
  have c1: "fst (createVideo (E\<lparr>deleteFails := d\<rparr>) srt fs0) = fst (createVideo E srt fs0)"
    by (rule createVideo_result_deleteFails)
  have c2: "\<forall>name. name \<notin> set (artifacts E) \<longrightarrow> snd (createVideo E srt fs0) name = fs0 name"
    using st by blast
  have c3: "fst (createVideo E srt fs0) = Inr data \<longrightarrow>
        dom (snd (createVideo E srt fs0)) = (dom fs0 \<union> set (artifacts E)) - set (deleted_by_cleanup E)"
    using st by blast
  have c4: "fst (createVideo E srt fs0) = Inr data \<and> (\<forall>name\<in>set (artifacts E). \<not> deleteFails E name) \<longrightarrow>
        (\<forall>name\<in>set (artifacts E). snd (createVideo E srt fs0) name = None)"
  proof (intro impI ballI, elim conjE)
    fix name
    assume ok: "fst (createVideo E srt fs0) = Inr data"
      and nf: "\<forall>name\<in>set (artifacts E). \<not> deleteFails E name" and m: "name \<in> set (artifacts E)"
    from c3 ok no_failing_deletion[OF nf]
    have "dom (snd (createVideo E srt fs0)) = (dom fs0 \<union> set (artifacts E)) - set (artifacts E)"
      by simp
    with m have "name \<notin> dom (snd (createVideo E srt fs0))" by blast
    then show "snd (createVideo E srt fs0) name = None" by (simp add: domIff)
  qed
  have c5: "fst (createVideo E srt fs0) = Inl e \<longrightarrow>
        dom (snd (createVideo E srt fs0)) = dom fs0 \<union> set (written_before_throw E)"
    using st by blast
  show ?thesis by (intro conjI c1 c2 c3 c4 c5)
qed

theorem cleanup_best_effort_witness:
  "fst (createVideo sample_env
          (''1'' @ [CHR 0x0A] @ ''00:00:00,000 --> 00:00:01,000'' @ [CHR 0x0A] @ ''la'') Map.empty)
     = Inr [2]
   \<and> snd (createVideo sample_env
          (''1'' @ [CHR 0x0A] @ ''00:00:00,000 --> 00:00:01,000'' @ [CHR 0x0A] @ ''la'') Map.empty)
         ''frame00000.jpg'' = None
   \<and> snd (createVideo sample_env
          (''1'' @ [CHR 0x0A] @ ''00:00:00,000 --> 00:00:01,000'' @ [CHR 0x0A] @ ''la'') Map.empty)
         ''frame00001.jpg'' = None
   \<and> snd (createVideo sample_env
          (''1'' @ [CHR 0x0A] @ ''00:00:00,000 --> 00:00:01,000'' @ [CHR 0x0A] @ ''la'') Map.empty)
         ''audio.mp3'' = None
   \<and> snd (createVideo sample_env
          (''1'' @ [CHR 0x0A] @ ''00:00:00,000 --> 00:00:01,000'' @ [CHR 0x0A] @ ''la'') Map.empty)
         ''output.mp4'' = None"
proof -
  let ?doc = "''1'' @ [CHR 0x0A] @ ''00:00:00,000 --> 00:00:01,000'' @ [CHR 0x0A] @ ''la''"
  have ok: "fst (createVideo sample_env ?doc Map.empty) = Inr [2]" by code_simp
  have names: "artifacts sample_env = [''frame00000.jpg'', ''frame00001.jpg'', ''audio.mp3'', ''output.mp4'']"
    by code_simp
  have nf: "\<forall>name\<in>set (artifacts sample_env). \<not> deleteFails sample_env name"
    by (simp add: sample_env_def)
  from cleanup_best_effort[where E = sample_env and d = "deleteFails sample_env" and srt = ?doc
      and ?fs0.0 = Map.empty and data = "[2]" and e = NotLoaded] ok nf
  have "\<forall>name\<in>set (artifacts sample_env). snd (createVideo sample_env ?doc Map.empty) name = None"
    by blast
  with ok show ?thesis unfolding names by simp
qed

theorem cleanup_counterexample:
  "fst (createVideo (sample_env\<lparr>execFails := True\<rparr>)
          (''1'' @ [CHR 0x0A] @ ''00:00:00,000 --> 00:00:01,000'' @ [CHR 0x0A] @ ''la'') Map.empty)
     = Inl ExecFailed
   \<and> snd (createVideo (sample_env\<lparr>execFails := True\<rparr>)
          (''1'' @ [CHR 0x0A] @ ''00:00:00,000 --> 00:00:01,000'' @ [CHR 0x0A] @ ''la'') Map.empty)
         ''frame00000.jpg'' = Some [108, 97]
   \<and> snd (createVideo (sample_env\<lparr>execFails := True\<rparr>)
          (''1'' @ [CHR 0x0A] @ ''00:00:00,000 --> 00:00:01,000'' @ [CHR 0x0A] @ ''la'') Map.empty)
         ''audio.mp3'' = Some [1]
   \<and> fst (createVideo (sample_env\<lparr>deleteFails := (\<lambda>name. name = ''frame00000.jpg'')\<rparr>)
          (''1'' @ [CHR 0x0A] @ ''00:00:00,000 --> 00:00:01,000'' @ [CHR 0x0A] @ ''la'') Map.empty)
     = Inr [2]
   \<and> snd (createVideo (sample_env\<lparr>deleteFails := (\<lambda>name. name = ''frame00000.jpg'')\<rparr>)
          (''1'' @ [CHR 0x0A] @ ''00:00:00,000 --> 00:00:01,000'' @ [CHR 0x0A] @ ''la'') Map.empty)
         ''frame00001.jpg'' = Some [108, 97]
   \<and> snd (createVideo (sample_env\<lparr>deleteFails := (\<lambda>name. name = ''frame00000.jpg'')\<rparr>)
          (''1'' @ [CHR 0x0A] @ ''00:00:00,000 --> 00:00:01,000'' @ [CHR 0x0A] @ ''la'') Map.empty)
         ''audio.mp3'' = Some [1]
   \<and> snd (createVideo (sample_env\<lparr>deleteFails := (\<lambda>name. name = ''frame00000.jpg'')\<rparr>)
          (''1'' @ [CHR 0x0A] @ ''00:00:00,000 --> 00:00:01,000'' @ [CHR 0x0A] @ ''la'') Map.empty)
         ''output.mp4'' = Some [2]"
  by code_simp

subsection \<open>Styled-event export\<close>






















end
